theory Spec2Isabelle
  imports Main "HOL-Library.AList" "HOL-Library.Word"
begin

section \<open>Data model of the RouterOS API client\<close>

text \<open>
  Go strings are byte sequences, and so is \<^typ>\<open>string\<close>: a list of 8-bit
  characters. The same type stands for a protocol word, for the raw bytes of a
  length prefix and for a digest. A Go \<open>map[string]string\<close> is an association
  list with distinct keys, written with \<open>AList.update\<close>, so that \<open>len(m) > 0\<close>
  is a test for the empty list.
\<close>

type_synonym strmap = "(string \<times> string) list"

record Pair =
  Key :: string
  Value :: string
  Op :: string

record Reply =
  Pairs :: "Pair list"
  SubPairs :: "strmap list"

text \<open>
  The fields of the Go struct \<open>Query\<close> are \<open>Pairs\<close>, \<open>Op\<close> and \<open>Proplist\<close>; the first
  two carry a prefix here, since \<open>Pairs\<close> and \<open>Op\<close> already name fields of
  \<open>Reply\<close> and \<open>Pair\<close>.
\<close>

record Query =
  QPairs :: "Pair list"
  QOp :: string
  Proplist :: "string list"

datatype error =
    EOF
  | ErrUnexpectedEOF
  | NetError string
  | IncorrectBytes
  | KeyNotFound
  | NoChallenge
  | ErrLength
  | InvalidByteError char
  | UnexpectedLogin Reply

definition emptyReply :: Reply where
  "emptyReply = \<lparr>Pairs = [], SubPairs = []\<rparr>"

definition NewPair :: "string \<Rightarrow> string \<Rightarrow> Pair" where
  "NewPair key val = \<lparr>Key = key, Value = val, Op = ''''\<rparr>"

section \<open>The connection\<close>

text \<open>
  What the program sees of its \<open>net.Conn\<close>. On the reading side, one \<open>frame\<close> is
  what one round of \<open>getlen\<close> followed by \<open>io.ReadAtLeast\<close> observes: the length
  \<open>getlen\<close> returned, the bytes the read put into the buffer (their number is the
  \<open>n\<close> of the source) and the error of the read. On the writing side, \<open>written\<close>
  collects the byte chunks of the \<open>Write\<close> calls that succeeded, oldest first, and
  \<open>wsched\<close> gives the outcome of the coming \<open>Write\<close> calls, one entry per call
  (\<open>None\<close>, or no entry left: the call succeeds).
\<close>

record frame =
  flen :: nat
  fgot :: string
  ferr :: "error option"

record Conn =
  incoming :: "frame list"
  written :: "string list"
  wsched :: "error option list"

text \<open>The frame of a word that arrives whole.\<close>

definition frame_of :: "string \<Rightarrow> frame" where
  "frame_of w = \<lparr>flen = length w, fgot = w, ferr = None\<rparr>"

text \<open>
  A call either returns, or it is still waiting in a read when the input
  known for the connection is used up.
\<close>

datatype ('s, 'a) res = Blocked 's | Returned 'a 's

fun state_of :: "('s, 'a) res \<Rightarrow> 's" where
  "state_of (Blocked s) = s"
| "state_of (Returned a s) = s"

section \<open>Word codec\<close>

text \<open>
  Modelled from the spec: \<open>prefixlen\<close> and \<open>getlen\<close> are called by \<open>send\<close> and
  \<open>receive\<close> but are not among the sources. Section 4.1 of the specification asks
  for a self-describing variable-length integer of one to five bytes, the
  high-order bits of the first byte telling how many bytes follow and how the
  value is rebuilt: below \<open>0x80\<close> one byte; below \<open>0x4000\<close> two bytes, marked
  \<open>10\<close>; below \<open>0x200000\<close> three bytes, marked \<open>110\<close>; below \<open>0x10000000\<close> four
  bytes, marked \<open>1110\<close>; otherwise the byte \<open>0xF0\<close> and the length in four bytes.
  Bytes are big-endian.
\<close>

definition prefixlen :: "nat \<Rightarrow> string" where
  "prefixlen l =
     (if l < 0x80 then [char_of l]
      else if l < 0x4000 then [char_of ((l + 0x8000) div 0x100), char_of l]
      else if l < 0x200000 then
        [char_of ((l + 0xC00000) div 0x10000), char_of (l div 0x100), char_of l]
      else if l < 0x10000000 then
        [char_of ((l + 0xE0000000) div 0x1000000), char_of (l div 0x10000),
         char_of (l div 0x100), char_of l]
      else
        [char_of (0xF0 :: nat), char_of (l div 0x1000000), char_of (l div 0x10000),
         char_of (l div 0x100), char_of l])"

text \<open>
  The decoder reads from the front of a byte stream and gives the length and
  the rest of the stream, or nothing when the stream ends inside the prefix or
  the first byte is none of the five forms.
\<close>

fun be_value :: "string \<Rightarrow> nat" where
  "be_value [] = 0"
| "be_value (b # bs) = of_char b * 256 ^ length bs + be_value bs"

definition getlen :: "string \<Rightarrow> (nat \<times> string) option" where
  "getlen bs =
     (case bs of
        [] \<Rightarrow> None
      | b # rest \<Rightarrow>
          (let v = (of_char b :: nat) in
           if v < 0x80 then Some (v, rest)
           else if v < 0xC0 then
             (if length rest < 1 then None
              else Some ((v - 0x80) * 256 + be_value (take 1 rest), drop 1 rest))
           else if v < 0xE0 then
             (if length rest < 2 then None
              else Some ((v - 0xC0) * 256 ^ 2 + be_value (take 2 rest), drop 2 rest))
           else if v < 0xF0 then
             (if length rest < 3 then None
              else Some ((v - 0xE0) * 256 ^ 3 + be_value (take 3 rest), drop 3 rest))
           else if v = 0xF0 then
             (if length rest < 4 then None
              else Some (be_value (take 4 rest), drop 4 rest))
           else None))"

section \<open>Sending a word\<close>

definition conn_Write :: "string \<Rightarrow> Conn \<Rightarrow> error option \<times> Conn" where
  "conn_Write bs c =
     (case wsched c of
        [] \<Rightarrow> (None, c\<lparr>written := written c @ [bs]\<rparr>)
      | None # sch \<Rightarrow> (None, c\<lparr>written := written c @ [bs], wsched := sch\<rparr>)
      | Some e # sch \<Rightarrow> (Some e, c\<lparr>wsched := sch\<rparr>))"

definition send :: "string \<Rightarrow> Conn \<Rightarrow> error option \<times> Conn" where
  "send word c =
     (let bword = word;
          prefix = prefixlen (length bword);
          (err, c1) = conn_Write prefix c
      in if err \<noteq> None then (err, c1)
         else (let (err2, c2) = conn_Write bword c1
               in if err2 \<noteq> None then (err2, c2) else (None, c2)))"

section \<open>The one-shot sentence parser\<close>

text \<open>
  \<open>strings.SplitN(s, sep, n)\<close> for a one-byte separator and \<open>n \<ge> 0\<close>: at most
  \<open>n\<close> pieces, the last one the unsplit rest.
\<close>

fun SplitN :: "string \<Rightarrow> char \<Rightarrow> nat \<Rightarrow> string list" where
  "SplitN s sep 0 = []"
| "SplitN s sep (Suc 0) = [s]"
| "SplitN s sep (Suc (Suc n)) =
     (if sep \<in> set s
      then takeWhile (\<lambda>c. c \<noteq> sep) s # SplitN (tl (dropWhile (\<lambda>c. c \<noteq> sep) s)) sep (Suc n)
      else [s])"

text \<open>
  The local variables of the loop. The flag \<open>done\<close> of the source is \<open>done_flag\<close>.
\<close>

record pstate =
  re :: bool
  done_flag :: bool
  subReply :: strmap
  reply :: Reply

definition init_pstate :: pstate where
  "init_pstate = \<lparr>re = False, done_flag = False, subReply = [], reply = emptyReply\<rparr>"

text \<open>
  The key and the value of a word that contains \<open>=\<close>. The source reads
  \<open>parts[1]\<close>, which exists because the word contains the separator.
\<close>

definition key_val :: "string \<Rightarrow> string \<times> string" where
  "key_val word =
     (let parts = SplitN word (CHR ''='') 3
      in if length parts = 3 then (parts ! 1, parts ! 2) else (parts ! 1, ''''))"

text \<open>The body of the loop of \<open>receive\<close> from \<open>word := string(inbuf)\<close> on.\<close>

definition receive_word :: "pstate \<Rightarrow> string \<Rightarrow> pstate" where
  "receive_word s word =
     (if word = ''!done'' then s\<lparr>done_flag := True\<rparr>
      else if word = ''!re'' then
        (if length (subReply s) > 0
         then s\<lparr>reply := (reply s)\<lparr>SubPairs := SubPairs (reply s) @ [subReply s]\<rparr>,
                subReply := []\<rparr>
         else s\<lparr>re := True\<rparr>)
      else if CHR ''='' \<in> set word then
        (let (key, val) = key_val word
         in if re s
            then (if key \<noteq> '''' then s\<lparr>subReply := AList.update key val (subReply s)\<rparr> else s)
            else s\<lparr>reply := (reply s)\<lparr>Pairs := Pairs (reply s) @
                   [\<lparr>Key = key, Value = val, Op = ''''\<rparr>]\<rparr>\<rparr>)
      else s)"

text \<open>After the loop: a record in progress that has content is appended.\<close>

definition receive_flush :: "pstate \<Rightarrow> Reply" where
  "receive_flush s =
     (if length (subReply s) > 0
      then (reply s)\<lparr>SubPairs := SubPairs (reply s) @ [subReply s]\<rparr>
      else reply s)"

datatype ('s, 'r) run = Pending 's | Finished 'r "frame list"

fun receive_loop :: "pstate \<Rightarrow> frame list \<Rightarrow> (pstate, Reply \<times> error option) run" where
  "receive_loop s [] = Pending s"
| "receive_loop s (f # fs) =
     (if flen f = 0 \<and> done_flag s then Finished (receive_flush s, None) fs
      else if ferr f \<noteq> None \<and> ferr f \<noteq> Some EOF then Finished (reply s, ferr f) fs
      else if length (fgot f) \<noteq> flen f then Finished (reply s, Some IncorrectBytes) fs
      else receive_loop (receive_word s (fgot f)) fs)"

definition receive :: "Conn \<Rightarrow> (Conn, Reply \<times> error option) res" where
  "receive c =
     (case receive_loop init_pstate (incoming c) of
        Pending s \<Rightarrow> Blocked (c\<lparr>incoming := []\<rparr>)
      | Finished r rest \<Rightarrow> Returned r (c\<lparr>incoming := rest\<rparr>))"

section \<open>The continuous sentence parser\<close>

text \<open>
  \<open>asyncReceive\<close> has the local variables of \<open>receive\<close> and a counter, an
  \<open>int64\<close> that starts at 1. Its callback has no result in Go and acts on the
  caller's side only: here it is a function that updates a state \<open>'u\<close> of the
  caller.
\<close>

record astate = pstate +
  counter :: "64 word"

type_synonym 'u AsyncReceiveIterator = "Reply \<Rightarrow> error option \<Rightarrow> 'u \<Rightarrow> 'u"

definition init_astate :: astate where
  "init_astate =
     \<lparr>re = False, done_flag = False, subReply = [], reply = emptyReply, counter = 1\<rparr>"

text \<open>The body of the loop of \<open>asyncReceive\<close> from \<open>word := string(inbuf)\<close> on.\<close>

definition async_word ::
  "'u AsyncReceiveIterator \<Rightarrow> astate \<Rightarrow> 'u \<Rightarrow> string \<Rightarrow> astate \<times> 'u" where
  "async_word iterator s u word =
     (if word = ''!done'' then (s\<lparr>done_flag := True\<rparr>, u)
      else if word = '''' then
        (let r = (if length (subReply s) > 0
                  then (reply s)\<lparr>SubPairs := SubPairs (reply s) @ [subReply s]\<rparr>
                  else reply s)
         in (s\<lparr>reply := emptyReply, re := False, done_flag := False, subReply := []\<rparr>,
             iterator r None u))
      else if word = ''!re'' then
        (if length (subReply s) > 0
         then (s\<lparr>reply := (reply s)\<lparr>SubPairs := SubPairs (reply s) @ [subReply s]\<rparr>,
                 subReply := []\<rparr>, u)
         else (s\<lparr>re := True\<rparr>, u))
      else if CHR ''='' \<in> set word then
        (let (key, val) = key_val word
         in if re s
            then (if key \<noteq> ''''
                  then (s\<lparr>subReply := AList.update key val (subReply s)\<rparr>, u) else (s, u))
            else (s\<lparr>reply := (reply s)\<lparr>Pairs := Pairs (reply s) @
                    [\<lparr>Key = key, Value = val, Op = ''''\<rparr>]\<rparr>\<rparr>, u))
      else (s, u))"

text \<open>
  The loop: the counter goes up, the loop ends when \<open>done\<close> is set, and only
  then the next word is read.
\<close>

fun async_loop ::
  "'u AsyncReceiveIterator \<Rightarrow> astate \<Rightarrow> 'u \<Rightarrow> frame list
     \<Rightarrow> (astate \<times> 'u, error option \<times> 'u) run" where
  "async_loop iterator s u [] =
     (let s1 = s\<lparr>counter := counter s + 1\<rparr>
      in if done_flag s1 then Finished (None, u) [] else Pending (s1, u))"
| "async_loop iterator s u (f # fs) =
     (let s1 = s\<lparr>counter := counter s + 1\<rparr>
      in if done_flag s1 then Finished (None, u) (f # fs)
         else if ferr f \<noteq> None \<and> ferr f \<noteq> Some EOF then Finished (ferr f, u) fs
         else if length (fgot f) \<noteq> flen f then Finished (Some IncorrectBytes, u) fs
         else (case async_word iterator s1 u (fgot f) of
                 (s2, u2) \<Rightarrow> async_loop iterator s2 u2 fs))"

definition asyncReceive ::
  "'u AsyncReceiveIterator \<Rightarrow> 'u \<Rightarrow> Conn \<Rightarrow> (Conn \<times> 'u, error option) res" where
  "asyncReceive iterator u c =
     (case async_loop iterator init_astate u (incoming c) of
        Pending (s, u') \<Rightarrow> Blocked (c\<lparr>incoming := []\<rparr>, u')
      | Finished (err, u') rest \<Rightarrow> Returned err (c\<lparr>incoming := rest\<rparr>, u'))"

section \<open>Replies and the client\<close>

fun GetPairVal :: "Pair list \<Rightarrow> string \<Rightarrow> error + string" where
  "GetPairVal [] key = Inl KeyNotFound"
| "GetPairVal (p # ps) key = (if Key p = key then Inr (Value p) else GetPairVal ps key)"

definition Reply_GetPairVal :: "Reply \<Rightarrow> string \<Rightarrow> error + string" where
  "Reply_GetPairVal r key = GetPairVal (Pairs r) key"

record Client =
  address :: string
  user :: string
  password :: string
  debug :: bool
  ready :: bool
  conn :: "Conn option"

text \<open>
  \<open>New\<close> validates the address with \<open>net.SplitHostPort\<close>, a function of the Go
  library that is a parameter here, and returns a client whose other fields
  have Go's zero values.
\<close>

definition New :: "(string \<Rightarrow> error option) \<Rightarrow> string \<Rightarrow> error + Client" where
  "New SplitHostPort addr =
     (case SplitHostPort addr of
        Some err \<Rightarrow> Inl err
      | None \<Rightarrow> Inr \<lparr>address = addr, user = '''', password = '''', debug = False,
                     ready = False, conn = None\<rparr>)"

section \<open>Call, Query and KeepAliveCall\<close>

text \<open>
  These methods use nothing of the client but its connection, which
  \<open>Connect\<close> has set: they are functions of the connection. The loops over the
  parameters drop the error of \<open>send\<close>, as the source does.
\<close>

fun Join :: "string list \<Rightarrow> string \<Rightarrow> string" where
  "Join [] sep = ''''"
| "Join [x] sep = x"
| "Join (x # y # ys) sep = x @ sep @ Join (y # ys) sep"

definition Call :: "string \<Rightarrow> Pair list \<Rightarrow> Conn \<Rightarrow> (Conn, Reply \<times> error option) res" where
  "Call command params c =
     (let (err, c1) = send command c
      in if err \<noteq> None then Returned (emptyReply, err) c1
         else
           (let c2 = (if length params > 0
                      then foldl (\<lambda>c v. snd (send (''='' @ Key v @ ''='' @ Value v) c)) c1 params
                      else c1);
                (err3, c3) = send '''' c2
            in if err3 \<noteq> None then Returned (emptyReply, err3) c3
               else (case receive c3 of
                       Blocked c4 \<Rightarrow> Blocked c4
                     | Returned (res, err4) c4 \<Rightarrow>
                         if err4 \<noteq> None then Returned (emptyReply, err4) c4
                         else Returned (res, None) c4)))"

text \<open>The method \<open>Query\<close>; the record of its argument has taken the name.\<close>

definition Query_call :: "string \<Rightarrow> Query \<Rightarrow> Conn \<Rightarrow> (Conn, Reply \<times> error option) res" where
  "Query_call command q c =
     (let (err, c1) = send command c
      in if err \<noteq> None then Returned (emptyReply, err) c1
         else
           (let (err2, c2) = (if length (Proplist q) > 0
                              then send (''=.proplist='' @ Join (Proplist q) '','') c1
                              else (None, c1))
            in if err2 \<noteq> None then Returned (emptyReply, err2) c2
               else
                 (let c3 = (if length (QPairs q) > 0
                            then (let c' = foldl (\<lambda>c v. snd (send
                                              (''?'' @ Op v @ Key v @ ''='' @ Value v) c))
                                            c2 (QPairs q)
                                  in if QOp q \<noteq> '''' then snd (send (''?#'' @ QOp q) c')
                                     else c')
                            else c2);
                      (err4, c4) = send '''' c3
                  in if err4 \<noteq> None then Returned (emptyReply, err4) c4
                     else (case receive c4 of
                             Blocked c5 \<Rightarrow> Blocked c5
                           | Returned (res, err5) c5 \<Rightarrow>
                               if err5 \<noteq> None then Returned (emptyReply, err5) c5
                               else Returned (res, None) c5))))"

type_synonym IteratorItem = "strmap list"
type_synonym 'u PairIterator = "IteratorItem \<Rightarrow> error option \<Rightarrow> 'u \<Rightarrow> 'u"

definition KeepAliveCall ::
  "string \<Rightarrow> Query \<Rightarrow> 'u PairIterator \<Rightarrow> 'u \<Rightarrow> Conn \<Rightarrow> (Conn \<times> 'u, error option) res" where
  "KeepAliveCall command q iterator u c =
     (let (err, c1) = send command c
      in if err \<noteq> None then Returned err (c1, u)
         else
           (let (err2, c2) = (if length (Proplist q) > 0
                              then send (''=.proplist='' @ Join (Proplist q) '','') c1
                              else (None, c1))
            in if err2 \<noteq> None then Returned err2 (c2, u)
               else
                 (let c3 = (if length (QPairs q) > 0
                            then foldl (\<lambda>c v. snd (send (Op v @ Key v @ ''='' @ Value v) c))
                                   c2 (QPairs q)
                            else c2);
                      (err4, c4) = send '''' c3
                  in if err4 \<noteq> None then Returned err4 (c4, u)
                     else (case asyncReceive (\<lambda>reply err. iterator (SubPairs reply) err) u c4 of
                             Blocked s \<Rightarrow> Blocked s
                           | Returned err5 s \<Rightarrow>
                               if err5 \<noteq> None then Returned err5 s else Returned None s))))"

section \<open>Login\<close>

text \<open>
  \<open>hex.DecodeString\<close>: two hex digits of either case give one byte; the first
  byte that is no hex digit is reported, and an odd number of digits is an
  error of its own.
\<close>

definition fromHexChar :: "char \<Rightarrow> nat option" where
  "fromHexChar c =
     (let n = (of_char c :: nat)
      in if 48 \<le> n \<and> n \<le> 57 then Some (n - 48)
         else if 97 \<le> n \<and> n \<le> 102 then Some (n - 97 + 10)
         else if 65 \<le> n \<and> n \<le> 70 then Some (n - 65 + 10)
         else None)"

fun hex_DecodeString :: "string \<Rightarrow> error + string" where
  "hex_DecodeString [] = Inr []"
| "hex_DecodeString [c] =
     (case fromHexChar c of None \<Rightarrow> Inl (InvalidByteError c) | Some p \<Rightarrow> Inl ErrLength)"
| "hex_DecodeString (a # b # cs) =
     (case fromHexChar a of
        None \<Rightarrow> Inl (InvalidByteError a)
      | Some p \<Rightarrow>
          (case fromHexChar b of
             None \<Rightarrow> Inl (InvalidByteError b)
           | Some q \<Rightarrow>
               (case hex_DecodeString cs of
                  Inl e \<Rightarrow> Inl e
                | Inr bs \<Rightarrow> Inr (char_of (p * 16 + q) # bs))))"

text \<open>
  The digest is \<open>crypto/md5\<close> of the Go library, a parameter \<open>H\<close> from the bytes
  hashed to the digest. A hash object holds the bytes written to it so far;
  \<open>Sum\<close> appends the digest of these bytes to its argument. The verb \<open>%x\<close> of
  \<open>fmt.Sprintf\<close> prints each byte of a slice as two lowercase hex digits.
\<close>

definition md5_New :: string where
  "md5_New = []"

definition hash_Write :: "string \<Rightarrow> string \<Rightarrow> string" where
  "hash_Write h p = h @ p"

definition hash_Sum :: "(string \<Rightarrow> string) \<Rightarrow> string \<Rightarrow> string \<Rightarrow> string" where
  "hash_Sum H h b = b @ H h"

definition hexdigits :: string where
  "hexdigits = ''0123456789abcdef''"

definition hexdigit :: "nat \<Rightarrow> char" where
  "hexdigit n = hexdigits ! n"

fun Sprintf_x :: "string \<Rightarrow> string" where
  "Sprintf_x [] = []"
| "Sprintf_x (b # bs) =
     hexdigit (of_char b div 16) # hexdigit (of_char b mod 16) # Sprintf_x bs"

text \<open>Lines 330 to 334 of \<open>Connect\<close>: the response to a challenge.\<close>

definition login_response :: "(string \<Rightarrow> string) \<Rightarrow> string \<Rightarrow> string \<Rightarrow> string" where
  "login_response H passwd challenge =
     (let h = md5_New;
          h = hash_Write h [char_of (0 :: nat)];
          h = hash_Write h passwd;
          h = hash_Write h challenge
      in ''00'' @ Sprintf_x (hash_Sum H h []))"

text \<open>
  \<open>net.Dial\<close> is a parameter as well: it fails, or it gives the connection with
  what the server is going to send.
\<close>

definition Connect ::
  "(string \<Rightarrow> string) \<Rightarrow> (string \<Rightarrow> error + Conn) \<Rightarrow> string \<Rightarrow> string \<Rightarrow> Client
     \<Rightarrow> (Client, error option) res" where
  "Connect H Dial usr passwd c =
     (case Dial (address c) of
        Inl err \<Rightarrow> Returned (Some err) c
      | Inr cn \<Rightarrow>
          (case Call ''/login'' [] cn of
             Blocked cn1 \<Rightarrow> Blocked (c\<lparr>conn := Some cn1\<rparr>)
           | Returned (res, err) cn1 \<Rightarrow>
               (let c1 = c\<lparr>conn := Some cn1\<rparr>
                in if err \<noteq> None then Returned err c1
                   else
                     (case Reply_GetPairVal res ''ret'' of
                        Inl _ \<Rightarrow> Returned (Some NoChallenge) c1
                      | Inr challengeEnc \<Rightarrow>
                          (case hex_DecodeString challengeEnc of
                             Inl err2 \<Rightarrow> Returned (Some err2) c1
                           | Inr challenge \<Rightarrow>
                               (let resp = login_response H passwd challenge;
                                    loginParams = [] @ [NewPair ''name'' usr];
                                    loginParams = loginParams @ [NewPair ''response'' resp]
                                in case Call ''/login'' loginParams cn1 of
                                     Blocked cn2 \<Rightarrow> Blocked (c\<lparr>conn := Some cn2\<rparr>)
                                   | Returned (res2, err3) cn2 \<Rightarrow>
                                       (let c2 = c\<lparr>conn := Some cn2\<rparr>
                                        in if err3 \<noteq> None then Returned err3 c2
                                           else if length (Pairs res2) > 0
                                           then Returned (Some (UnexpectedLogin res2)) c2
                                           else Returned None c2)))))))"

section \<open>Notions used in the statements\<close>

text \<open>
  One round of the loop of \<open>asyncReceive\<close> on a word that arrives whole while
  \<open>done\<close> is not set: the counter goes up and the word is handled.
\<close>

definition async_step ::
  "'u AsyncReceiveIterator \<Rightarrow> astate \<times> 'u \<Rightarrow> string \<Rightarrow> astate \<times> 'u" where
  "async_step it su w =
     async_word it ((fst su)\<lparr>counter := counter (fst su) + 1\<rparr>) (snd su) w"

text \<open>A callback that keeps the list of its calls, oldest first.\<close>

definition record_calls :: "(Reply \<times> error option) list AsyncReceiveIterator" where
  "record_calls r e calls = calls @ [(r, e)]"

text \<open>
  The two chunks \<open>send\<close> writes for a word, and a connection after the words
  \<open>ws\<close> have been sent with no failing write.
\<close>

definition wire :: "string \<Rightarrow> string list" where
  "wire w = [prefixlen (length w), w]"

definition sent :: "string list \<Rightarrow> Conn \<Rightarrow> Conn" where
  "sent ws c = c\<lparr>written := written c @ concat (map wire ws),
                 wsched := drop (2 * length ws) (wsched c)\<rparr>"

text \<open>No coming write of the connection fails.\<close>

definition healthy :: "Conn \<Rightarrow> bool" where
  "healthy c = (set (wsched c) \<subseteq> {None})"

text \<open>
  The word for the property list of a query and the word for its combining
  operator, each as a list of no word or one.
\<close>

definition proplist_words :: "Query \<Rightarrow> string list" where
  "proplist_words q =
     (if Proplist q \<noteq> [] then [''=.proplist='' @ Join (Proplist q) '',''] else [])"

definition op_words :: "Query \<Rightarrow> string list" where
  "op_words q = (if QPairs q \<noteq> [] \<and> QOp q \<noteq> '''' then [''?#'' @ QOp q] else [])"

text \<open>The words of one record of a table: \<open>!re\<close>, then a word \<open>=key=value\<close> for each entry.\<close>

definition record_words :: "strmap \<Rightarrow> string list" where
  "record_words r = ''!re'' # map (\<lambda>kv. ''='' @ fst kv @ ''='' @ snd kv) r"

section \<open>Splitting a word at the separator\<close>

lemma takeWhile_upto_sep:
  "sep \<notin> set a \<Longrightarrow> takeWhile (\<lambda>c. c \<noteq> sep) (a @ sep # b) = a"
  by (induction a) auto

lemma dropWhile_upto_sep:
  "sep \<notin> set a \<Longrightarrow> dropWhile (\<lambda>c. c \<noteq> sep) (a @ sep # b) = sep # b"
  by (induction a) auto

lemma SplitN_3_one:
  assumes "sep \<notin> set a" "sep \<notin> set b"
  shows "SplitN (a @ sep # b) sep 3 = [a, b]"
proof -
  have three: "(3::nat) = Suc (Suc (Suc 0))" by simp
  show ?thesis
    unfolding three
    using assms by (simp add: takeWhile_upto_sep dropWhile_upto_sep)
qed

lemma SplitN_3_two:
  assumes "sep \<notin> set a" "sep \<notin> set k"
  shows "SplitN (a @ sep # k @ sep # v) sep 3 = [a, k, v]"
proof -
  have three: "(3::nat) = Suc (Suc (Suc 0))" by simp
  show ?thesis
    unfolding three
    using assms by (simp add: takeWhile_upto_sep dropWhile_upto_sep)
qed

text \<open>The index 1 that the source reads is in range for every word with a separator.\<close>

lemma SplitN_3_length:
  "sep \<in> set w \<Longrightarrow> 2 \<le> length (SplitN w sep 3)"
proof -
  have three: "(3::nat) = Suc (Suc (Suc 0))" by simp
  show "sep \<in> set w \<Longrightarrow> 2 \<le> length (SplitN w sep 3)"
    unfolding three by simp
qed

lemma key_val_one:
  "CHR ''='' \<notin> set a \<Longrightarrow> CHR ''='' \<notin> set b \<Longrightarrow> key_val (a @ CHR ''='' # b) = (b, '''')"
  by (simp add: key_val_def SplitN_3_one)

lemma key_val_two:
  "CHR ''='' \<notin> set a \<Longrightarrow> CHR ''='' \<notin> set k \<Longrightarrow>
   key_val (a @ CHR ''='' # k @ CHR ''='' # v) = (k, v)"
  by (simp add: key_val_def SplitN_3_two)

lemma eq_word_not_marker:
  "CHR ''='' \<in> set w \<Longrightarrow> w \<noteq> ''!done'' \<and> w \<noteq> ''!re'' \<and> w \<noteq> ''''"
  by auto

lemma receive_word_eq:
  assumes "CHR ''='' \<in> set w"
  shows "receive_word s w =
     (if re s
      then (if fst (key_val w) \<noteq> ''''
            then s\<lparr>subReply := AList.update (fst (key_val w)) (snd (key_val w)) (subReply s)\<rparr>
            else s)
      else s\<lparr>reply := (reply s)\<lparr>Pairs := Pairs (reply s) @
             [\<lparr>Key = fst (key_val w), Value = snd (key_val w), Op = ''''\<rparr>]\<rparr>\<rparr>)"
  using assms eq_word_not_marker [OF assms]
  by (simp add: receive_word_def split: prod.splits)

lemma async_word_eq:
  assumes "CHR ''='' \<in> set w"
  shows "async_word it s u w =
     (if re s
      then (if fst (key_val w) \<noteq> ''''
            then s\<lparr>subReply := AList.update (fst (key_val w)) (snd (key_val w)) (subReply s)\<rparr>
            else s)
      else s\<lparr>reply := (reply s)\<lparr>Pairs := Pairs (reply s) @
             [\<lparr>Key = fst (key_val w), Value = snd (key_val w), Op = ''''\<rparr>]\<rparr>\<rparr>, u)"
  using assms eq_word_not_marker [OF assms]
  by (simp add: async_word_def split: prod.splits)

text \<open>
  C10: in both parsers the text before the first \<open>=\<close> of a word is dropped,
  whatever it is. A word \<open>a=b\<close> with one separator has the key \<open>b\<close> and the
  empty value; a word \<open>a=b=v\<close> has the key \<open>b\<close>, the text between the first two
  separators, and the value \<open>v\<close>, all that follows the second one. Outside
  grouped mode either parser appends exactly this pair to the flat list.
\<close>

theorem key_value_split:
  assumes "CHR ''='' \<notin> set a" and "CHR ''='' \<notin> set b"
  shows "key_val (a @ ''='' @ b) = (b, '''') \<and>
         key_val (a @ ''='' @ b @ ''='' @ v) = (b, v) \<and>
         (\<not> re s \<longrightarrow>
            receive_word s (a @ ''='' @ b) =
              s\<lparr>reply := (reply s)\<lparr>Pairs := Pairs (reply s) @
                 [\<lparr>Key = b, Value = '''', Op = ''''\<rparr>]\<rparr>\<rparr> \<and>
            receive_word s (a @ ''='' @ b @ ''='' @ v) =
              s\<lparr>reply := (reply s)\<lparr>Pairs := Pairs (reply s) @
                 [\<lparr>Key = b, Value = v, Op = ''''\<rparr>]\<rparr>\<rparr>) \<and>
         (\<not> re t \<longrightarrow>
            async_word it t u (a @ ''='' @ b) =
              (t\<lparr>reply := (reply t)\<lparr>Pairs := Pairs (reply t) @
                 [\<lparr>Key = b, Value = '''', Op = ''''\<rparr>]\<rparr>\<rparr>, u) \<and>
            async_word it t u (a @ ''='' @ b @ ''='' @ v) =
              (t\<lparr>reply := (reply t)\<lparr>Pairs := Pairs (reply t) @
                 [\<lparr>Key = b, Value = v, Op = ''''\<rparr>]\<rparr>\<rparr>, u))"
proof -
  have one: "key_val (a @ CHR ''='' # b) = (b, [])"
    using key_val_one [OF assms] by simp
  have two: "key_val (a @ CHR ''='' # b @ CHR ''='' # v) = (b, v)"
    using key_val_two [OF assms, of v] by simp
  have m1: "CHR ''='' \<in> set (a @ CHR ''='' # b)" by simp
  have m2: "CHR ''='' \<in> set (a @ CHR ''='' # b @ CHR ''='' # v)" by simp
  show ?thesis
    by (simp add: one two receive_word_eq [OF m1] receive_word_eq [OF m2]
        async_word_eq [OF m1] async_word_eq [OF m2])
qed

theorem key_value_split_witness:
  "key_val ''abc=def'' = (''def'', '''') \<and> key_val ''=name=eth0'' = (''name'', ''eth0'')"
proof -
  have a: "CHR ''='' \<notin> set ''abc''" by simp
  have b: "CHR ''='' \<notin> set ''def''" by simp
  have c: "CHR ''='' \<notin> set ''''" by simp
  have d: "CHR ''='' \<notin> set ''name''" by simp
  show ?thesis
    using key_value_split [OF a b, THEN conjunct1]
      key_value_split [OF c d, THEN conjunct2, THEN conjunct1, of "''eth0''"]
    by simp
qed

section \<open>Words that the parsers pass over\<close>

lemma receive_word_other:
  assumes "w \<noteq> ''!done''" "w \<noteq> ''!re''" "CHR ''='' \<notin> set w"
  shows "receive_word s w = s"
  using assms by (simp add: receive_word_def)

lemma async_word_other:
  assumes "w \<noteq> ''!done''" "w \<noteq> ''!re''" "w \<noteq> ''''" "CHR ''='' \<notin> set w"
  shows "async_word it t u w = (t, u)"
  using assms by (simp add: async_word_def)

lemma receive_loop_frame_nonempty:
  "w \<noteq> '''' \<Longrightarrow> receive_loop s (frame_of w # fs) = receive_loop (receive_word s w) fs"
  by (simp add: frame_of_def)

lemma receive_loop_frame_not_done:
  "\<not> done_flag s \<Longrightarrow> receive_loop s (frame_of w # fs) = receive_loop (receive_word s w) fs"
  by (simp add: frame_of_def)

lemma async_loop_frame_of:
  "\<not> done_flag t \<Longrightarrow>
   async_loop it t u (frame_of w # fs) =
     (case async_word it (t\<lparr>counter := counter t + 1\<rparr>) u w of
        (t2, u2) \<Rightarrow> async_loop it t2 u2 fs)"
  by (simp add: frame_of_def Let_def)

text \<open>
  C9: a received word that is not \<open>!done\<close>, not \<open>!re\<close>, not empty and has no
  \<open>=\<close> (such as \<open>!trap\<close>) is passed over by both parsers. The variables of
  the one-shot parser stay as they are and its loop goes on to the next word
  with no error; in the continuous parser the variables stay as they are, the
  callback is not called, and the loop goes on with nothing changed but its
  iteration counter.
\<close>

theorem other_words_discarded:
  assumes "w \<noteq> ''!done''" and "w \<noteq> ''!re''" and "w \<noteq> ''''" and "CHR ''='' \<notin> set w"
  shows "receive_word s w = s \<and>
         receive_loop s (frame_of w # fs) = receive_loop s fs \<and>
         async_word it t u w = (t, u) \<and>
         (\<not> done_flag t \<longrightarrow>
            async_loop it t u (frame_of w # fs) =
              async_loop it (t\<lparr>counter := counter t + 1\<rparr>) u fs)"
proof -
  have r: "receive_word s w = s"
    by (rule receive_word_other [OF assms(1,2,4)])
  have l: "receive_loop s (frame_of w # fs) = receive_loop s fs"
    using receive_loop_frame_nonempty [OF assms(3), of s fs] r by simp
  have a: "async_word it t' u w = (t', u)" for t'
    by (rule async_word_other [OF assms])
  show ?thesis
    using r l a by (simp add: async_loop_frame_of del: async_loop.simps)
qed

theorem other_words_discarded_witness:
  "receive_word init_pstate ''!trap'' = init_pstate \<and>
   receive_loop init_pstate (map frame_of [''!trap'', ''!done'', '''']) =
     Finished (emptyReply, None) [] \<and>
   async_word (\<lambda>r e n. Suc n) init_astate (0::nat) ''!trap'' = (init_astate, 0)"
proof -
  have h: "''!trap'' \<noteq> ''!done''" "''!trap'' \<noteq> ''!re''" "''!trap'' \<noteq> ''''"
    "CHR ''='' \<notin> set ''!trap''" by simp_all
  have tail: "receive_loop init_pstate (map frame_of [''!done'', '''']) =
     Finished (emptyReply, None) []"
    by code_simp
  show ?thesis
    using other_words_discarded [OF h, of init_pstate "map frame_of [''!done'', '''']"
        "\<lambda>r e n. Suc n" init_astate "0::nat"] tail
    by simp
qed

section \<open>Where the one-shot parser ends\<close>

lemma receive_word_done_mono: "done_flag s \<Longrightarrow> done_flag (receive_word s w)"
  by (simp add: receive_word_def split: prod.splits)

lemma foldl_receive_word_done: "done_flag s \<Longrightarrow> done_flag (foldl receive_word s ws)"
  by (induction ws arbitrary: s) (simp_all add: receive_word_done_mono)

lemma receive_word_not_done:
  "w \<noteq> ''!done'' \<Longrightarrow> done_flag (receive_word s w) = done_flag s"
  by (simp add: receive_word_def split: prod.splits)

lemma receive_loop_before_done:
  "\<not> done_flag s \<Longrightarrow> ''!done'' \<notin> set ws \<Longrightarrow>
   receive_loop s (map frame_of ws @ fs) = receive_loop (foldl receive_word s ws) fs"
proof (induction ws arbitrary: s)
  case Nil
  then show ?case by simp
next
  case (Cons w ws)
  from Cons.prems have w: "w \<noteq> ''!done''" and ws: "''!done'' \<notin> set ws" by auto
  have nd: "\<not> done_flag (receive_word s w)"
    using Cons.prems(1) receive_word_not_done [OF w] by simp
  have "receive_loop s (map frame_of (w # ws) @ fs) =
        receive_loop (receive_word s w) (map frame_of ws @ fs)"
    by (simp del: receive_loop.simps add: receive_loop_frame_not_done [OF Cons.prems(1)])
  also have "\<dots> = receive_loop (foldl receive_word (receive_word s w) ws) fs"
    by (rule Cons.IH [OF nd ws])
  finally show ?case by simp
qed

lemma receive_loop_nonempty_words:
  "'''' \<notin> set ws \<Longrightarrow>
   receive_loop s (map frame_of ws @ fs) = receive_loop (foldl receive_word s ws) fs"
proof (induction ws arbitrary: s)
  case Nil
  then show ?case by simp
next
  case (Cons w ws)
  from Cons.prems have w: "w \<noteq> ''''" and ws: "'''' \<notin> set ws" by auto
  have "receive_loop s (map frame_of (w # ws) @ fs) =
        receive_loop (receive_word s w) (map frame_of ws @ fs)"
    by (simp del: receive_loop.simps add: receive_loop_frame_nonempty [OF w])
  also have "\<dots> = receive_loop (foldl receive_word (receive_word s w) ws) fs"
    by (rule Cons.IH [OF ws])
  finally show ?case by simp
qed

lemma receive_loop_empty_after_done:
  "done_flag s \<Longrightarrow> receive_loop s (frame_of '''' # fs) = Finished (receive_flush s, None) fs"
  by (simp add: frame_of_def)

lemma receive_loop_upto_done:
  assumes "\<not> done_flag s" "''!done'' \<notin> set ws" "'''' \<notin> set ws'"
  shows "receive_loop s (map frame_of (ws @ ''!done'' # ws') @ fs) =
         receive_loop (foldl receive_word s (ws @ ''!done'' # ws')) fs"
proof -
  let ?s1 = "foldl receive_word s ws"
  let ?s2 = "receive_word ?s1 ''!done''"
  have "receive_loop s (map frame_of (ws @ ''!done'' # ws') @ fs) =
        receive_loop ?s1 (frame_of ''!done'' # map frame_of ws' @ fs)"
    using receive_loop_before_done [OF assms(1,2)] by simp
  also have "\<dots> = receive_loop ?s2 (map frame_of ws' @ fs)"
    by (simp del: receive_loop.simps add: receive_loop_frame_nonempty)
  also have "\<dots> = receive_loop (foldl receive_word ?s2 ws') fs"
    by (rule receive_loop_nonempty_words [OF assms(3)])
  finally show ?thesis by simp
qed

lemma receive_loop_sentence:
  assumes "\<not> done_flag s" "''!done'' \<notin> set ws" "'''' \<notin> set ws'"
  shows "receive_loop s (map frame_of (ws @ ''!done'' # ws' @ ['''']) @ fs) =
         Finished (receive_flush (foldl receive_word s (ws @ ''!done'' # ws')), None) fs"
proof -
  let ?s3 = "foldl receive_word s (ws @ ''!done'' # ws')"
  have "receive_loop s (map frame_of (ws @ ''!done'' # ws' @ ['''']) @ fs) =
        receive_loop s (map frame_of (ws @ ''!done'' # ws') @ frame_of '''' # fs)"
    by simp
  also have "\<dots> = receive_loop ?s3 (frame_of '''' # fs)"
    by (rule receive_loop_upto_done [OF assms])
  also have "\<dots> = Finished (receive_flush ?s3, None) fs"
  proof -
    have "done_flag (receive_word (foldl receive_word s ws) ''!done'')"
      by (simp add: receive_word_def)
    then have "done_flag ?s3"
      using foldl_receive_word_done by simp
    then show ?thesis by (rule receive_loop_empty_after_done)
  qed
  finally show ?thesis .
qed

text \<open>
  C1, as the code has it: \<open>receive\<close> does not return at the word \<open>!done\<close>. The
  word sets a flag, and the loop ends at the first word of length zero read
  after it; what arrives in between is parsed like any other word. So words
  without \<open>!done\<close> leave the parser waiting, words up to \<open>!done\<close> and beyond,
  with no empty word after it, leave it waiting as well, and the empty word
  then ends the sentence with no error and nothing more consumed. In
  particular the words \<open>=name=eth0\<close>, \<open>=type=ether\<close>, \<open>!done\<close> and the empty
  word give the two flat pairs in this order and no grouped record.
\<close>

theorem receive_ends_at_empty_word_after_done:
  assumes "''!done'' \<notin> set ws" and "'''' \<notin> set ws'"
  shows "receive_loop init_pstate (map frame_of ws) =
           Pending (foldl receive_word init_pstate ws) \<and>
         receive_loop init_pstate (map frame_of (ws @ ''!done'' # ws')) =
           Pending (foldl receive_word init_pstate (ws @ ''!done'' # ws')) \<and>
         receive_loop init_pstate (map frame_of (ws @ ''!done'' # ws' @ ['''']) @ fs) =
           Finished (receive_flush (foldl receive_word init_pstate (ws @ ''!done'' # ws')),
             None) fs \<and>
         receive \<lparr>incoming = map frame_of [''=name=eth0'', ''=type=ether'', ''!done'', ''''],
                  written = wr, wsched = sch\<rparr> =
           Returned (\<lparr>Pairs = [\<lparr>Key = ''name'', Value = ''eth0'', Op = ''''\<rparr>,
                                \<lparr>Key = ''type'', Value = ''ether'', Op = ''''\<rparr>],
                       SubPairs = []\<rparr>, None)
                    \<lparr>incoming = [], written = wr, wsched = sch\<rparr>"
proof -
  have nd: "\<not> done_flag init_pstate" by (simp add: init_pstate_def)
  have a: "receive_loop init_pstate (map frame_of ws) =
           Pending (foldl receive_word init_pstate ws)"
    using receive_loop_before_done [OF nd assms(1), of "[]"] by simp
  have b: "receive_loop init_pstate (map frame_of (ws @ ''!done'' # ws')) =
           Pending (foldl receive_word init_pstate (ws @ ''!done'' # ws'))"
    using receive_loop_upto_done [OF nd assms, of "[]"] by simp
  have c: "receive_loop init_pstate (map frame_of (ws @ ''!done'' # ws' @ ['''']) @ fs) =
           Finished (receive_flush (foldl receive_word init_pstate (ws @ ''!done'' # ws')),
             None) fs"
    by (rule receive_loop_sentence [OF nd assms])
  have l: "receive_loop init_pstate
             (map frame_of [''=name=eth0'', ''=type=ether'', ''!done'', '''']) =
           Finished (\<lparr>Pairs = [\<lparr>Key = ''name'', Value = ''eth0'', Op = ''''\<rparr>,
                                \<lparr>Key = ''type'', Value = ''ether'', Op = ''''\<rparr>],
                       SubPairs = []\<rparr>, None) []"
    by code_simp
  have d: "receive \<lparr>incoming = map frame_of [''=name=eth0'', ''=type=ether'', ''!done'', ''''],
                  written = wr, wsched = sch\<rparr> =
           Returned (\<lparr>Pairs = [\<lparr>Key = ''name'', Value = ''eth0'', Op = ''''\<rparr>,
                                \<lparr>Key = ''type'', Value = ''ether'', Op = ''''\<rparr>],
                       SubPairs = []\<rparr>, None)
                    \<lparr>incoming = [], written = wr, wsched = sch\<rparr>"
    unfolding receive_def using l by simp
  show ?thesis using a b c d by blast
qed

theorem receive_ends_at_empty_word_after_done_witness:
  "receive_loop init_pstate (map frame_of [''=name=eth0'', ''=type=ether'', ''!done'', '''']) =
     Finished (\<lparr>Pairs = [\<lparr>Key = ''name'', Value = ''eth0'', Op = ''''\<rparr>,
                          \<lparr>Key = ''type'', Value = ''ether'', Op = ''''\<rparr>],
                 SubPairs = []\<rparr>, None) [] \<and>
   receive_loop init_pstate (map frame_of [''!done'', ''=ret=ab'', '''', ''=x=y'']) =
     Finished (\<lparr>Pairs = [\<lparr>Key = ''ret'', Value = ''ab'', Op = ''''\<rparr>], SubPairs = []\<rparr>, None)
       [frame_of ''=x=y'']"
proof -
  have h1: "''!done'' \<notin> set [''=name=eth0'', ''=type=ether'']" by simp
  have h2: "'''' \<notin> set ([] :: string list)" by simp
  have h3: "''!done'' \<notin> set ([] :: string list)" by simp
  have h4: "'''' \<notin> set [''=ret=ab'']" by simp
  have f1: "receive_flush (foldl receive_word init_pstate
              ([''=name=eth0'', ''=type=ether''] @ ''!done'' # [])) =
            \<lparr>Pairs = [\<lparr>Key = ''name'', Value = ''eth0'', Op = ''''\<rparr>,
                      \<lparr>Key = ''type'', Value = ''ether'', Op = ''''\<rparr>], SubPairs = []\<rparr>"
    by code_simp
  have f2: "receive_flush (foldl receive_word init_pstate ([] @ ''!done'' # [''=ret=ab''])) =
            \<lparr>Pairs = [\<lparr>Key = ''ret'', Value = ''ab'', Op = ''''\<rparr>], SubPairs = []\<rparr>"
    by code_simp
  have t1: "receive_loop init_pstate
              (map frame_of ([''=name=eth0'', ''=type=ether''] @ ''!done'' # [] @ ['''']) @ []) =
            Finished (receive_flush (foldl receive_word init_pstate
              ([''=name=eth0'', ''=type=ether''] @ ''!done'' # [])), None) []"
    using receive_ends_at_empty_word_after_done [OF h1 h2, of "[]"] by blast
  have t2: "receive_loop init_pstate
              (map frame_of ([] @ ''!done'' # [''=ret=ab''] @ ['''']) @ [frame_of ''=x=y'']) =
            Finished (receive_flush (foldl receive_word init_pstate
              ([] @ ''!done'' # [''=ret=ab''])), None) [frame_of ''=x=y'']"
    using receive_ends_at_empty_word_after_done [OF h3 h4, of "[frame_of ''=x=y'']"] by blast
  show ?thesis
    using t1 t2 unfolding f1 f2 by simp
qed

theorem receive_done_is_not_the_end:
  "receive \<lparr>incoming = map frame_of [''=name=eth0'', ''=type=ether'', ''!done''],
            written = [], wsched = []\<rparr> =
     Blocked \<lparr>incoming = [], written = [], wsched = []\<rparr> \<and>
   receive \<lparr>incoming = map frame_of [''!done'', ''=ret=ab'', ''''],
            written = [], wsched = []\<rparr> =
     Returned (\<lparr>Pairs = [\<lparr>Key = ''ret'', Value = ''ab'', Op = ''''\<rparr>], SubPairs = []\<rparr>, None)
       \<lparr>incoming = [], written = [], wsched = []\<rparr>"
  by code_simp

section \<open>Grouped records\<close>

text \<open>
  C2, as the code has it: \<open>!re\<close> closes a record in progress that has content,
  by appending it to \<open>SubPairs\<close> and opening an empty one; with an empty record
  in progress it only enters grouped mode. The sentence \<open>!re\<close>, \<open>=.id=*1\<close>,
  \<open>=name=eth0\<close>, \<open>!re\<close>, \<open>=.id=*2\<close>, \<open>=name=eth1\<close>, \<open>!done\<close> followed by the
  word of length zero that ends the loop gives the two records in this order
  and no flat pair; the second record is appended when that last word is read.
\<close>

theorem re_starts_record:
  "receive_word s ''!re'' =
     (if subReply s \<noteq> []
      then s\<lparr>reply := (reply s)\<lparr>SubPairs := SubPairs (reply s) @ [subReply s]\<rparr>,
             subReply := []\<rparr>
      else s\<lparr>re := True\<rparr>) \<and>
   receive \<lparr>incoming = map frame_of [''!re'', ''=.id=*1'', ''=name=eth0'',
               ''!re'', ''=.id=*2'', ''=name=eth1'', ''!done'', ''''],
            written = wr, wsched = sch\<rparr> =
     Returned (\<lparr>Pairs = [],
                 SubPairs = [[(''.id'', ''*1''), (''name'', ''eth0'')],
                             [(''.id'', ''*2''), (''name'', ''eth1'')]]\<rparr>, None)
       \<lparr>incoming = [], written = wr, wsched = sch\<rparr>"
proof -
  have step: "receive_word s ''!re'' =
     (if subReply s \<noteq> []
      then s\<lparr>reply := (reply s)\<lparr>SubPairs := SubPairs (reply s) @ [subReply s]\<rparr>,
             subReply := []\<rparr>
      else s\<lparr>re := True\<rparr>)"
    by (simp add: receive_word_def)
  have l: "receive_loop init_pstate (map frame_of [''!re'', ''=.id=*1'', ''=name=eth0'',
               ''!re'', ''=.id=*2'', ''=name=eth1'', ''!done'', '''']) =
     Finished (\<lparr>Pairs = [],
                 SubPairs = [[(''.id'', ''*1''), (''name'', ''eth0'')],
                             [(''.id'', ''*2''), (''name'', ''eth1'')]]\<rparr>, None) []"
    by code_simp
  show ?thesis
    unfolding receive_def using step l by simp
qed

theorem re_starts_record_witness:
  "receive_word init_pstate ''!re'' = init_pstate\<lparr>re := True\<rparr> \<and>
   receive_word (init_pstate\<lparr>re := True, subReply := [(''.id'', ''*1'')]\<rparr>) ''!re'' =
     init_pstate\<lparr>re := True, reply := \<lparr>Pairs = [], SubPairs = [[(''.id'', ''*1'')]]\<rparr>\<rparr>"
  using re_starts_record [of init_pstate, THEN conjunct1]
    re_starts_record [of "init_pstate\<lparr>re := True, subReply := [(''.id'', ''*1'')]\<rparr>",
      THEN conjunct1]
  by (simp add: init_pstate_def emptyReply_def)

theorem re_sentence_needs_the_empty_word:
  "receive \<lparr>incoming = map frame_of [''!re'', ''=.id=*1'', ''=name=eth0'',
               ''!re'', ''=.id=*2'', ''=name=eth1'', ''!done''],
            written = [], wsched = []\<rparr> =
     Blocked \<lparr>incoming = [], written = [], wsched = []\<rparr> \<and>
   receive_loop init_pstate (map frame_of [''!re'', ''=.id=*1'', ''=name=eth0'',
               ''!re'', ''=.id=*2'', ''=name=eth1'', ''!done'']) =
     Pending \<lparr>re = True, done_flag = True,
               subReply = [(''.id'', ''*2''), (''name'', ''eth1'')],
               reply = \<lparr>Pairs = [], SubPairs = [[(''.id'', ''*1''), (''name'', ''eth0'')]]\<rparr>\<rparr>"
  by code_simp

section \<open>A table of records\<close>

lemma update_fresh: "k \<notin> fst ` set m \<Longrightarrow> AList.update k v m = m @ [(k, v)]"
  by (induction m) auto

lemma updates_distinct:
  "distinct (map fst (m @ r)) \<Longrightarrow>
   foldl (\<lambda>m kv. AList.update (fst kv) (snd kv) m) m r = m @ r"
proof (induction r arbitrary: m)
  case Nil
  then show ?case by simp
next
  case (Cons kv r)
  have fresh: "fst kv \<notin> fst ` set m"
    using Cons.prems by auto
  have d: "distinct (map fst ((m @ [kv]) @ r))"
    using Cons.prems by simp
  show ?case
    using Cons.IH [OF d] update_fresh [OF fresh, of "snd kv"] by simp
qed

lemma receive_word_attribute:
  assumes "re s" and "k \<noteq> ''''" and "CHR ''='' \<notin> set k"
  shows "receive_word s (''='' @ k @ ''='' @ v) = s\<lparr>subReply := AList.update k v (subReply s)\<rparr>"
proof -
  have m: "CHR ''='' \<in> set (CHR ''='' # k @ CHR ''='' # v)" by simp
  have kv: "key_val (CHR ''='' # k @ CHR ''='' # v) = (k, v)"
    using key_val_two [of "[]" k v] assms(3) by simp
  show ?thesis
    using assms(1,2) by (simp add: receive_word_eq [OF m] kv)
qed

lemma receive_attributes:
  assumes "re s" and "\<forall>kv \<in> set r. fst kv \<noteq> '''' \<and> CHR ''='' \<notin> set (fst kv)"
  shows "foldl receive_word s (map (\<lambda>kv. ''='' @ fst kv @ ''='' @ snd kv) r) =
         s\<lparr>subReply := foldl (\<lambda>m kv. AList.update (fst kv) (snd kv) m) (subReply s) r\<rparr>"
  using assms
proof (induction r arbitrary: s)
  case Nil
  then show ?case by simp
next
  case (Cons kv r)
  have k: "fst kv \<noteq> ''''" "CHR ''='' \<notin> set (fst kv)"
    using Cons.prems(2) by auto
  have st: "receive_word s (''='' @ fst kv @ ''='' @ snd kv) =
            s\<lparr>subReply := AList.update (fst kv) (snd kv) (subReply s)\<rparr>"
    by (rule receive_word_attribute [OF Cons.prems(1) k])
  have re': "re (s\<lparr>subReply := AList.update (fst kv) (snd kv) (subReply s)\<rparr>)"
    using Cons.prems(1) by simp
  have rest: "\<forall>kv \<in> set r. fst kv \<noteq> '''' \<and> CHR ''='' \<notin> set (fst kv)"
    using Cons.prems(2) by simp
  show ?case
    using Cons.IH [OF re' rest] st by simp
qed

lemma receive_record:
  assumes "re s \<or> subReply s = []"
    and "distinct (map fst r)"
    and "\<forall>kv \<in> set r. fst kv \<noteq> '''' \<and> CHR ''='' \<notin> set (fst kv)"
  shows "foldl receive_word s (record_words r) =
         s\<lparr>re := True, subReply := r,
           reply := (reply s)\<lparr>SubPairs := SubPairs (reply s) @
             (if subReply s = [] then [] else [subReply s])\<rparr>\<rparr>"
proof -
  let ?s1 = "receive_word s ''!re''"
  have s1: "?s1 = (if subReply s \<noteq> []
      then s\<lparr>reply := (reply s)\<lparr>SubPairs := SubPairs (reply s) @ [subReply s]\<rparr>,
             subReply := []\<rparr>
      else s\<lparr>re := True\<rparr>)"
    by (simp add: receive_word_def)
  have re1: "re ?s1" using assms(1) s1 by auto
  have e1: "subReply ?s1 = []" using s1 by simp
  have d: "distinct (map fst ([] @ r))" using assms(2) by simp
  have "foldl receive_word s (record_words r) =
        ?s1\<lparr>subReply := foldl (\<lambda>m kv. AList.update (fst kv) (snd kv) m) (subReply ?s1) r\<rparr>"
    using receive_attributes [OF re1 assms(3)] by (simp add: record_words_def)
  also have "\<dots> = ?s1\<lparr>subReply := r\<rparr>"
    using updates_distinct [OF d] e1 by simp
  also have "\<dots> = s\<lparr>re := True, subReply := r,
           reply := (reply s)\<lparr>SubPairs := SubPairs (reply s) @
             (if subReply s = [] then [] else [subReply s])\<rparr>\<rparr>"
    using assms(1) unfolding s1 by auto
  finally show ?thesis .
qed

lemma receive_records:
  assumes "re s \<or> subReply s = []"
    and "\<forall>r \<in> set recs. r \<noteq> [] \<and> distinct (map fst r) \<and>
           (\<forall>kv \<in> set r. fst kv \<noteq> '''' \<and> CHR ''='' \<notin> set (fst kv))"
  shows "receive_flush (foldl receive_word s (concat (map record_words recs))) =
         (reply s)\<lparr>SubPairs := SubPairs (reply s) @
           (if subReply s = [] then [] else [subReply s]) @ recs\<rparr>"
  using assms
proof (induction recs arbitrary: s)
  case Nil
  then show ?case by (simp add: receive_flush_def)
next
  case (Cons r recs)
  let ?s1 = "s\<lparr>re := True, subReply := r,
           reply := (reply s)\<lparr>SubPairs := SubPairs (reply s) @
             (if subReply s = [] then [] else [subReply s])\<rparr>\<rparr>"
  have r: "r \<noteq> []" "distinct (map fst r)"
    "\<forall>kv \<in> set r. fst kv \<noteq> '''' \<and> CHR ''='' \<notin> set (fst kv)"
    using Cons.prems(2) by auto
  have st: "foldl receive_word s (record_words r) = ?s1"
    by (rule receive_record [OF Cons.prems(1) r(2,3)])
  have re1: "re ?s1 \<or> subReply ?s1 = []" by simp
  have rest: "\<forall>r \<in> set recs. r \<noteq> [] \<and> distinct (map fst r) \<and>
           (\<forall>kv \<in> set r. fst kv \<noteq> '''' \<and> CHR ''='' \<notin> set (fst kv))"
    using Cons.prems(2) by simp
  show ?case
    using Cons.IH [OF re1 rest] st r(1) by simp
qed

lemma record_words_no_marker:
  "''!done'' \<notin> set (concat (map record_words recs)) \<and>
   '''' \<notin> set (concat (map record_words recs))"
  by (induction recs) (auto simp: record_words_def)

text \<open>
  A sentence of records, each opened by \<open>!re\<close> and each with at least one
  attribute, its keys distinct, not empty and free of \<open>=\<close>, then \<open>!done\<close> and the
  empty word: the reply has these records, in order, and no flat pair.
\<close>

lemma receive_table:
  assumes "\<forall>r \<in> set recs. r \<noteq> [] \<and> distinct (map fst r) \<and>
           (\<forall>kv \<in> set r. fst kv \<noteq> '''' \<and> CHR ''='' \<notin> set (fst kv))"
  shows "receive_loop init_pstate
           (map frame_of (concat (map record_words recs) @ [''!done'', '''']) @ fs) =
         Finished (\<lparr>Pairs = [], SubPairs = recs\<rparr>, None) fs"
proof -
  let ?ws = "concat (map record_words recs)"
  have nd: "\<not> done_flag init_pstate" by (simp add: init_pstate_def)
  have h1: "''!done'' \<notin> set ?ws" using record_words_no_marker by blast
  have h2: "'''' \<notin> set ([] :: string list)" by simp
  have i: "re init_pstate \<or> subReply init_pstate = []" by (simp add: init_pstate_def)
  have fl: "receive_flush (foldl receive_word init_pstate (?ws @ ''!done'' # [])) =
            receive_flush (foldl receive_word init_pstate ?ws)"
    by (simp add: receive_flush_def receive_word_def)
  have "receive_loop init_pstate (map frame_of (?ws @ ''!done'' # [] @ ['''']) @ fs) =
        Finished (receive_flush (foldl receive_word init_pstate (?ws @ ''!done'' # [])), None) fs"
    by (rule receive_loop_sentence [OF nd h1 h2])
  then show ?thesis
    unfolding fl receive_records [OF i assms]
    by (simp add: init_pstate_def emptyReply_def)
qed

section \<open>Where the continuous parser ends\<close>

lemma async_word_keeps_not_done:
  "w \<noteq> ''!done'' \<Longrightarrow> \<not> done_flag s \<Longrightarrow> \<not> done_flag (fst (async_word it s u w))"
  by (simp add: async_word_def split: prod.splits)

lemma async_loop_before_done:
  "\<not> done_flag s \<Longrightarrow> ''!done'' \<notin> set ws \<Longrightarrow>
   async_loop it s u (map frame_of ws @ fs) =
     (case foldl (async_step it) (s, u) ws of (s', u') \<Rightarrow> async_loop it s' u' fs) \<and>
   \<not> done_flag (fst (foldl (async_step it) (s, u) ws))"
proof (induction ws arbitrary: s u)
  case Nil
  then show ?case by simp
next
  case (Cons w ws)
  from Cons.prems have w: "w \<noteq> ''!done''" and ws: "''!done'' \<notin> set ws" by auto
  obtain s2 u2 where st: "async_step it (s, u) w = (s2, u2)"
    by (cases "async_step it (s, u) w")
  have nd1: "\<not> done_flag (s\<lparr>counter := counter s + 1\<rparr>)"
    using Cons.prems(1) by simp
  have nd: "\<not> done_flag s2"
    using async_word_keeps_not_done [OF w nd1, of it u] st by (simp add: async_step_def)
  have "async_loop it s u (map frame_of (w # ws) @ fs) =
        async_loop it s2 u2 (map frame_of ws @ fs)"
    using st Cons.prems(1)
    by (simp del: async_loop.simps add: async_loop_frame_of async_step_def)
  then show ?case
    using Cons.IH [OF nd ws, of u2] st by simp
qed

lemma async_loop_done:
  "done_flag s \<Longrightarrow> async_loop it s u fs = Finished (None, u) fs"
  by (cases fs) simp_all

lemma async_word_done: "async_word it s u ''!done'' = (s\<lparr>done_flag := True\<rparr>, u)"
  by (simp add: async_word_def)

lemma record_calls_step:
  "map snd (snd (async_step record_calls (s, calls) w)) =
   map snd calls @ (if w = '''' then [None] else [])"
  by (simp add: async_step_def async_word_def record_calls_def split: prod.splits)

lemma record_calls_fold:
  "map snd (snd (foldl (async_step record_calls) (s, calls) ws)) =
   map snd calls @ replicate (count_list ws '''') None"
proof (induction ws arbitrary: s calls)
  case Nil
  then show ?case by simp
next
  case (Cons w ws)
  obtain s2 c2 where st: "async_step record_calls (s, calls) w = (s2, c2)"
    by (cases "async_step record_calls (s, calls) w")
  have "map snd c2 = map snd calls @ (if w = '''' then [None] else [])"
    using record_calls_step [of s calls w] st by simp
  then show ?case
    using Cons.IH [of s2 c2] st by (simp add: replicate_app_Cons_same)
qed

text \<open>Every way out of the loop: the flag, or a read that failed.\<close>

lemma async_loop_returns_only:
  "async_loop it s u fs = Finished (r, u') rest \<Longrightarrow>
   (r = None \<and> (done_flag s \<or> (\<exists>f \<in> set fs. fgot f = ''!done''))) \<or>
   (\<exists>f \<in> set fs. (r = ferr f \<and> r \<noteq> None \<and> r \<noteq> Some EOF) \<or>
                   (r = Some IncorrectBytes \<and> length (fgot f) \<noteq> flen f))"
proof (induction fs arbitrary: s u)
  case Nil
  then show ?case by (simp add: Let_def split: if_splits)
next
  case (Cons f fs)
  show ?case
  proof (cases "done_flag s")
    case True
    then show ?thesis using Cons.prems by (simp add: Let_def)
  next
    case nd: False
    show ?thesis
    proof (cases "ferr f \<noteq> None \<and> ferr f \<noteq> Some EOF")
      case True
      then show ?thesis using Cons.prems nd by (auto simp: Let_def)
    next
      case ok: False
      show ?thesis
      proof (cases "length (fgot f) \<noteq> flen f")
        case True
        then show ?thesis using Cons.prems nd ok by (auto simp: Let_def)
      next
        case False
        obtain s2 u2 where st:
          "async_word it (s\<lparr>counter := counter s + 1\<rparr>) u (fgot f) = (s2, u2)"
          by (cases "async_word it (s\<lparr>counter := counter s + 1\<rparr>) u (fgot f)")
        have rec: "async_loop it s2 u2 fs = Finished (r, u') rest"
          using Cons.prems nd ok False st by (auto simp: Let_def)
        have d: "done_flag s2 \<Longrightarrow> fgot f = ''!done''"
          using st nd by (auto simp: async_word_def split: if_splits prod.splits)
        from Cons.IH [OF rec] d show ?thesis by auto
      qed
    qed
  qed
qed

text \<open>The two ways out with an error, from a round in which \<open>done\<close> is not set.\<close>

lemma async_loop_hard_error:
  assumes "\<not> done_flag s" and "ferr f \<noteq> None" and "ferr f \<noteq> Some EOF"
  shows "async_loop it s u (f # fs) = Finished (ferr f, u) fs"
  using assms by (simp add: Let_def)

lemma async_loop_short_read:
  assumes "\<not> done_flag s" and "ferr f = None \<or> ferr f = Some EOF"
    and "length (fgot f) \<noteq> flen f"
  shows "async_loop it s u (f # fs) = Finished (Some IncorrectBytes, u) fs"
  using assms by (auto simp: Let_def)

text \<open>
  C5, as the code has it: \<open>asyncReceive\<close> stays in its loop on every word but
  \<open>!done\<close>, calling the callback once for each empty word, with no error. It
  returns with no error as soon as it has read the word \<open>!done\<close>, leaving the
  rest of the input unread. It returns the error of the read when the next
  read fails with an error other than the end of the stream, and the error of
  a short read when the next read brings another number of bytes than the
  length announced; the callback has then been called for the empty words
  before, and not again. There is no other way out: a run that returns no
  error has read \<open>!done\<close>, and a run that returns an error has met such a read.
\<close>

theorem async_returns_at_done_or_error:
  assumes "''!done'' \<notin> set ws"
  shows "(\<exists>t calls.
            async_loop record_calls init_astate [] (map frame_of ws) = Pending (t, calls) \<and>
            map snd calls = replicate (count_list ws '''') None \<and>
            async_loop record_calls init_astate [] (map frame_of (ws @ [''!done'']) @ fs) =
              Finished (None, calls) fs \<and>
            (ferr f \<noteq> None \<and> ferr f \<noteq> Some EOF \<longrightarrow>
               async_loop record_calls init_astate [] (map frame_of ws @ f # fs) =
                 Finished (ferr f, calls) fs) \<and>
            ((ferr f = None \<or> ferr f = Some EOF) \<and> length (fgot f) \<noteq> flen f \<longrightarrow>
               async_loop record_calls init_astate [] (map frame_of ws @ f # fs) =
                 Finished (Some IncorrectBytes, calls) fs)) \<and>
         (async_loop it init_astate u gs = Finished (r, u') rest \<longrightarrow>
            (r = None \<and> (\<exists>f \<in> set gs. fgot f = ''!done'')) \<or>
            (\<exists>f \<in> set gs. (r = ferr f \<and> r \<noteq> None \<and> r \<noteq> Some EOF) \<or>
                            (r = Some IncorrectBytes \<and> length (fgot f) \<noteq> flen f)))"
proof -
  have nd: "\<not> done_flag init_astate" by (simp add: init_astate_def)
  obtain t calls where fd: "foldl (async_step record_calls) (init_astate, []) ws = (t, calls)"
    by (cases "foldl (async_step record_calls) (init_astate, []) ws")
  have ndt: "\<not> done_flag t"
    using async_loop_before_done [OF nd assms, of record_calls "[]" "[]"] fd by simp
  have p: "async_loop record_calls init_astate [] (map frame_of ws) =
           Pending (t\<lparr>counter := counter t + 1\<rparr>, calls)"
    using async_loop_before_done [OF nd assms, of record_calls "[]" "[]"] fd ndt
    by (simp add: Let_def)
  have c: "map snd calls = replicate (count_list ws '''') None"
    using record_calls_fold [of init_astate "[]" ws] fd by simp
  have "async_loop record_calls init_astate [] (map frame_of (ws @ [''!done'']) @ fs) =
        async_loop record_calls t calls (frame_of ''!done'' # fs)"
    using async_loop_before_done [OF nd assms, of record_calls "[]" "frame_of ''!done'' # fs"] fd
    by simp
  also have "\<dots> =
      async_loop record_calls (t\<lparr>counter := counter t + 1, done_flag := True\<rparr>) calls fs"
    using ndt by (simp del: async_loop.simps add: async_loop_frame_of async_word_done)
  also have "\<dots> = Finished (None, calls) fs"
    by (rule async_loop_done) simp
  finally have d: "async_loop record_calls init_astate []
      (map frame_of (ws @ [''!done'']) @ fs) = Finished (None, calls) fs" .
  have next_frame: "async_loop record_calls init_astate [] (map frame_of ws @ f # fs) =
        async_loop record_calls t calls (f # fs)"
    using async_loop_before_done [OF nd assms, of record_calls "[]" "f # fs"] fd
    by simp
  have hard: "ferr f \<noteq> None \<and> ferr f \<noteq> Some EOF \<longrightarrow>
               async_loop record_calls init_astate [] (map frame_of ws @ f # fs) =
                 Finished (ferr f, calls) fs"
    unfolding next_frame using async_loop_hard_error [OF ndt, of f record_calls calls fs]
    by blast
  have short: "(ferr f = None \<or> ferr f = Some EOF) \<and> length (fgot f) \<noteq> flen f \<longrightarrow>
               async_loop record_calls init_astate [] (map frame_of ws @ f # fs) =
                 Finished (Some IncorrectBytes, calls) fs"
    unfolding next_frame using async_loop_short_read [OF ndt, of f record_calls calls fs]
    by blast
  have e: "async_loop it init_astate u gs = Finished (r, u') rest \<longrightarrow>
            (r = None \<and> (\<exists>f \<in> set gs. fgot f = ''!done'')) \<or>
            (\<exists>f \<in> set gs. (r = ferr f \<and> r \<noteq> None \<and> r \<noteq> Some EOF) \<or>
                            (r = Some IncorrectBytes \<and> length (fgot f) \<noteq> flen f))"
    using async_loop_returns_only [of it init_astate u gs r u' rest] nd by blast
  from p c d hard short e show ?thesis by blast
qed

theorem async_returns_at_done_or_error_witness:
  "(\<exists>t calls.
     async_loop record_calls init_astate [] (map frame_of [''!re'', ''=a=b'', '''', ''=c=d'', '''']) =
       Pending (t, calls) \<and>
     map snd calls = [None, None] \<and>
     async_loop record_calls init_astate []
       (map frame_of ([''!re'', ''=a=b'', '''', ''=c=d'', ''''] @ [''!done'']) @
        [frame_of ''=e=f'']) =
       Finished (None, calls) [frame_of ''=e=f''] \<and>
     async_loop record_calls init_astate []
       (map frame_of [''!re'', ''=a=b'', '''', ''=c=d'', ''''] @
        \<lparr>flen = 4, fgot = ''ab'', ferr = Some ErrUnexpectedEOF\<rparr> # [frame_of ''=e=f'']) =
       Finished (Some ErrUnexpectedEOF, calls) [frame_of ''=e=f'']) \<and>
   (\<exists>calls.
     map snd calls = [None, None] \<and>
     async_loop record_calls init_astate []
       (map frame_of [''!re'', ''=a=b'', '''', ''=c=d'', ''''] @
        \<lparr>flen = 4, fgot = '''', ferr = Some EOF\<rparr> # [frame_of ''=e=f'']) =
       Finished (Some IncorrectBytes, calls) [frame_of ''=e=f''])"
proof -
  have h: "''!done'' \<notin> set [''!re'', ''=a=b'', '''', ''=c=d'', '''']" by simp
  have n: "replicate (count_list [''!re'', ''=a=b'', '''', ''=c=d'', ''''] '''') None =
           [None :: error option, None]"
    by simp
  have a: "ferr \<lparr>flen = 4, fgot = ''ab'', ferr = Some ErrUnexpectedEOF\<rparr> \<noteq> None \<and>
           ferr \<lparr>flen = 4, fgot = ''ab'', ferr = Some ErrUnexpectedEOF\<rparr> \<noteq> Some EOF"
    by simp
  have b: "(ferr \<lparr>flen = 4, fgot = '''', ferr = Some EOF\<rparr> = None \<or>
            ferr \<lparr>flen = 4, fgot = '''', ferr = Some EOF\<rparr> = Some EOF) \<and>
           length (fgot \<lparr>flen = 4, fgot = '''', ferr = Some EOF\<rparr>) \<noteq>
           flen \<lparr>flen = 4, fgot = '''', ferr = Some EOF\<rparr>"
    by simp
  let ?ws = "[''!re'', ''=a=b'', '''', ''=c=d'', '''']"
  let ?hard = "\<lparr>flen = 4, fgot = ''ab'', ferr = Some ErrUnexpectedEOF\<rparr>"
  let ?short = "\<lparr>flen = 4, fgot = '''', ferr = Some EOF\<rparr>"
  let ?fs = "[frame_of ''=e=f'']"
  obtain t1 calls1 where
    p1: "async_loop record_calls init_astate [] (map frame_of ?ws) = Pending (t1, calls1)"
    and c1: "map snd calls1 = replicate (count_list ?ws '''') None"
    and d1: "async_loop record_calls init_astate [] (map frame_of (?ws @ [''!done'']) @ ?fs) =
               Finished (None, calls1) ?fs"
    and e1: "ferr ?hard \<noteq> None \<and> ferr ?hard \<noteq> Some EOF \<longrightarrow>
             async_loop record_calls init_astate [] (map frame_of ?ws @ ?hard # ?fs) =
               Finished (ferr ?hard, calls1) ?fs"
    using async_returns_at_done_or_error [OF h, where fs = ?fs and f = ?hard, THEN conjunct1]
    by blast
  obtain t2 calls2 where
    c2: "map snd calls2 = replicate (count_list ?ws '''') None"
    and e2: "(ferr ?short = None \<or> ferr ?short = Some EOF) \<and>
               length (fgot ?short) \<noteq> flen ?short \<longrightarrow>
             async_loop record_calls init_astate [] (map frame_of ?ws @ ?short # ?fs) =
               Finished (Some IncorrectBytes, calls2) ?fs"
    using async_returns_at_done_or_error [OF h, where fs = ?fs and f = ?short, THEN conjunct1]
    by blast
  have first: "\<exists>t calls.
     async_loop record_calls init_astate [] (map frame_of ?ws) = Pending (t, calls) \<and>
     map snd calls = [None, None] \<and>
     async_loop record_calls init_astate [] (map frame_of (?ws @ [''!done'']) @ ?fs) =
       Finished (None, calls) ?fs \<and>
     async_loop record_calls init_astate [] (map frame_of ?ws @ ?hard # ?fs) =
       Finished (Some ErrUnexpectedEOF, calls) ?fs"
    using p1 c1 d1 e1 a unfolding n by (intro exI [of _ t1] exI [of _ calls1]) simp
  have r2: "async_loop record_calls init_astate [] (map frame_of ?ws @ ?short # ?fs) =
       Finished (Some IncorrectBytes, calls2) ?fs"
    using e2 b by (rule mp)
  have both: "map snd calls2 = [None, None] \<and>
     async_loop record_calls init_astate [] (map frame_of ?ws @ ?short # ?fs) =
       Finished (Some IncorrectBytes, calls2) ?fs"
    using c2 [unfolded n] r2 by (rule conjI)
  have second: "\<exists>calls.
     map snd calls = [None, None] \<and>
     async_loop record_calls init_astate [] (map frame_of ?ws @ ?short # ?fs) =
       Finished (Some IncorrectBytes, calls) ?fs"
    by (rule exI [where x = calls2]) (fact both)
  from first second show ?thesis by (rule conjI)
qed

theorem asyncReceive_returns_at_done:
  "asyncReceive record_calls []
     \<lparr>incoming = map frame_of [''!done'', ''=a=b'', ''''], written = [], wsched = []\<rparr> =
   Returned None (\<lparr>incoming = map frame_of [''=a=b'', ''''], written = [], wsched = []\<rparr>, [])"
  by code_simp

section \<open>The words of a query on the wire\<close>

lemma conn_Write_ok:
  assumes "healthy c"
  shows "conn_Write bs c = (None, c\<lparr>written := written c @ [bs], wsched := drop 1 (wsched c)\<rparr>)"
proof (cases "wsched c")
  case Nil
  then show ?thesis by (simp add: conn_Write_def)
next
  case (Cons o1 sch)
  with assms have "o1 = None" by (auto simp: healthy_def)
  with Cons show ?thesis by (simp add: conn_Write_def)
qed

lemma healthy_drop: "healthy c \<Longrightarrow> healthy (c\<lparr>written := w, wsched := drop n (wsched c)\<rparr>)"
  using set_drop_subset [of n "wsched c"] by (auto simp: healthy_def)

lemma send_ok:
  assumes "healthy c"
  shows "send w c = (None, sent [w] c)"
proof -
  let ?c1 = "c\<lparr>written := written c @ [prefixlen (length w)], wsched := drop 1 (wsched c)\<rparr>"
  have h1: "healthy ?c1"
    by (rule healthy_drop [OF assms])
  have w1: "conn_Write (prefixlen (length w)) c = (None, ?c1)"
    by (rule conn_Write_ok [OF assms])
  have w2: "conn_Write w ?c1 =
    (None, ?c1\<lparr>written := written ?c1 @ [w], wsched := drop 1 (wsched ?c1)\<rparr>)"
    by (rule conn_Write_ok [OF h1])
  show ?thesis
    unfolding send_def Let_def w1 using w2 by (simp add: sent_def wire_def numeral_2_eq_2)
qed

lemma sent_healthy: "healthy c \<Longrightarrow> healthy (sent ws c)"
  unfolding sent_def by (rule healthy_drop)

lemma sent_sent: "sent vs (sent ws c) = sent (ws @ vs) c"
  by (simp add: sent_def add.commute distrib_left)

lemma sent_Nil: "sent [] c = c"
  by (simp add: sent_def)

text \<open>The loops over the parameters, when no write fails.\<close>

lemma send_all_ok:
  assumes "healthy c"
  shows "foldl (\<lambda>c v. snd (send (f v) c)) c ps = sent (map f ps) c"
  using assms
proof (induction ps arbitrary: c)
  case Nil
  then show ?case by (simp add: sent_Nil)
next
  case (Cons p ps)
  have h: "healthy (sent [f p] c)"
    by (rule sent_healthy [OF Cons.prems])
  show ?case
    using Cons.IH [OF h] send_ok [OF Cons.prems, of "f p"] by (simp add: sent_sent)
qed

lemma written_sent: "written (sent ws c) = written c @ concat (map wire ws)"
  by (simp add: sent_def)

lemma incoming_sent: "incoming (sent ws c) = incoming c"
  by (simp add: sent_def)

lemma written_receive: "written (state_of (receive c)) = written c"
  by (simp add: receive_def split: run.splits)

lemma written_asyncReceive: "written (fst (state_of (asyncReceive it u c))) = written c"
  by (simp add: asyncReceive_def split: run.splits prod.splits)

lemma state_of_reply_wrap:
  "state_of (case r of Blocked c5 \<Rightarrow> Blocked c5
             | Returned (res, err5) c5 \<Rightarrow>
                 if err5 \<noteq> None then Returned (emptyReply, err5) c5
                 else Returned (res, None) c5) = state_of r"
  by (cases r) (auto split: prod.splits)

lemma state_of_error_wrap:
  "state_of (case r of Blocked s \<Rightarrow> Blocked s
             | Returned err5 s \<Rightarrow>
                 if err5 \<noteq> None then Returned err5 s else Returned None s) = state_of r"
  by (cases r) auto

lemma Call_healthy:
  assumes "healthy c"
  shows "Call command params c =
        (case receive (sent (command # map (\<lambda>v. ''='' @ Key v @ ''='' @ Value v) params
                               @ ['''']) c) of
           Blocked c4 \<Rightarrow> Blocked c4
         | Returned (res, err4) c4 \<Rightarrow>
             if err4 \<noteq> None then Returned (emptyReply, err4) c4
             else Returned (res, None) c4)"
  using assms
  by (simp add: Call_def Let_def send_ok send_all_ok sent_healthy sent_sent sent_Nil)

lemma Query_call_healthy:
  assumes "healthy c"
  shows "Query_call command q c =
        (case receive (sent (command # proplist_words q @
                 map (\<lambda>v. ''?'' @ Op v @ Key v @ ''='' @ Value v) (QPairs q) @
                 op_words q @ ['''']) c) of
           Blocked c5 \<Rightarrow> Blocked c5
         | Returned (res, err5) c5 \<Rightarrow>
             if err5 \<noteq> None then Returned (emptyReply, err5) c5
             else Returned (res, None) c5)"
  using assms
  by (simp add: Query_call_def Let_def send_ok send_all_ok sent_healthy sent_sent sent_Nil
      proplist_words_def op_words_def)

lemma Query_call_sends:
  assumes "healthy c"
  shows "written (state_of (Query_call command q c)) =
         written c @ concat (map wire (command # proplist_words q @
           map (\<lambda>v. ''?'' @ Op v @ Key v @ ''='' @ Value v) (QPairs q) @
           op_words q @ ['''']))"
  unfolding Query_call_healthy [OF assms] state_of_reply_wrap written_receive written_sent ..

lemma KeepAliveCall_healthy:
  assumes "healthy c"
  shows "KeepAliveCall command q iterator u c =
        (case asyncReceive (\<lambda>reply err. iterator (SubPairs reply) err) u
                (sent (command # proplist_words q @
                   map (\<lambda>v. Op v @ Key v @ ''='' @ Value v) (QPairs q) @ ['''']) c) of
           Blocked s \<Rightarrow> Blocked s
         | Returned err5 s \<Rightarrow>
             if err5 \<noteq> None then Returned err5 s else Returned None s)"
  using assms
  by (simp add: KeepAliveCall_def Let_def send_ok send_all_ok sent_healthy sent_sent sent_Nil
      proplist_words_def)

lemma KeepAliveCall_sends:
  assumes "healthy c"
  shows "written (fst (state_of (KeepAliveCall command q iterator u c))) =
         written c @ concat (map wire (command # proplist_words q @
           map (\<lambda>v. Op v @ Key v @ ''='' @ Value v) (QPairs q) @ ['''']))"
  unfolding KeepAliveCall_healthy [OF assms] state_of_error_wrap written_asyncReceive
    written_sent ..

text \<open>
  C6, as the code has it: when no write fails, \<open>Query\<close> writes, each as its
  length prefix and its bytes, the command; then, if the property list is not
  empty, the one word \<open>=.proplist=\<close> with the names joined by commas; then for
  each filter pair in order the word \<open>?\<close>, operator, key, \<open>=\<close>, value; then the
  word \<open>?#\<close> with the combining operator, if that operator is not empty and
  there is at least one filter pair; then the empty word.
\<close>

theorem Query_word_order:
  assumes "healthy c"
  shows "written (state_of (Query_call command q c)) =
         written c @ concat (map wire
           (command #
            (if Proplist q \<noteq> [] then [''=.proplist='' @ Join (Proplist q) '',''] else []) @
            map (\<lambda>v. ''?'' @ Op v @ Key v @ ''='' @ Value v) (QPairs q) @
            (if QPairs q \<noteq> [] \<and> QOp q \<noteq> '''' then [''?#'' @ QOp q] else []) @
            ['''']))"
  using Query_call_sends [OF assms, of command q]
  by (simp only: proplist_words_def op_words_def)

theorem Query_word_order_witness:
  "written (state_of (Query_call ''/interface/print''
      \<lparr>QPairs = [\<lparr>Key = ''type'', Value = ''ether'', Op = ''''\<rparr>,
                 \<lparr>Key = ''mtu'', Value = ''1500'', Op = ''<''\<rparr>],
       QOp = ''|'', Proplist = [''name'', ''mtu'']\<rparr>
      \<lparr>incoming = [], written = [], wsched = [None]\<rparr>)) =
   concat (map wire [''/interface/print'', ''=.proplist=name,mtu'', ''?type=ether'',
     ''?<mtu=1500'', ''?#|'', ''''])"
proof -
  have h: "healthy \<lparr>incoming = [], written = [], wsched = [None]\<rparr>"
    by (simp add: healthy_def)
  show ?thesis
    using Query_word_order [OF h, of "''/interface/print''"
      "\<lparr>QPairs = [\<lparr>Key = ''type'', Value = ''ether'', Op = ''''\<rparr>,
                 \<lparr>Key = ''mtu'', Value = ''1500'', Op = ''<''\<rparr>],
       QOp = ''|'', Proplist = [''name'', ''mtu'']\<rparr>"]
    by simp
qed

theorem Query_op_word_needs_a_filter:
  "written (state_of (Query_call ''/interface/print''
      \<lparr>QPairs = [], QOp = ''|'', Proplist = []\<rparr>
      \<lparr>incoming = [], written = [], wsched = []\<rparr>)) =
     concat (map wire [''/interface/print'', '''']) \<and>
   ''?#|'' \<notin> set (written (state_of (Query_call ''/interface/print''
      \<lparr>QPairs = [], QOp = ''|'', Proplist = []\<rparr>
      \<lparr>incoming = [], written = [], wsched = []\<rparr>)))"
  by code_simp

text \<open>
  C4, as the code has it: when no write fails, \<open>KeepAliveCall\<close> writes the
  command, the property list word and the empty word as \<open>Query\<close> does, and no
  word for the combining operator; its filter words are operator, key, \<open>=\<close>,
  value, without the \<open>?\<close> that \<open>Query\<close> puts in front.
\<close>

theorem KeepAliveCall_words:
  assumes "healthy c"
  shows "written (fst (state_of (KeepAliveCall command q iterator u c))) =
           written c @ concat (map wire
             (command #
              (if Proplist q \<noteq> [] then [''=.proplist='' @ Join (Proplist q) '',''] else []) @
              map (\<lambda>v. Op v @ Key v @ ''='' @ Value v) (QPairs q) @
              [''''])) \<and>
         written (state_of (Query_call command q c)) =
           written c @ concat (map wire
             (command #
              (if Proplist q \<noteq> [] then [''=.proplist='' @ Join (Proplist q) '',''] else []) @
              map (\<lambda>v. ''?'' @ Op v @ Key v @ ''='' @ Value v) (QPairs q) @
              (if QPairs q \<noteq> [] \<and> QOp q \<noteq> '''' then [''?#'' @ QOp q] else []) @
              ['''']))"
  using KeepAliveCall_sends [OF assms, of command q iterator u]
    Query_call_sends [OF assms, of command q]
  by (simp only: proplist_words_def op_words_def)

theorem KeepAliveCall_words_witness:
  "written (fst (state_of (KeepAliveCall ''/interface/listen''
      \<lparr>QPairs = [\<lparr>Key = ''type'', Value = ''ether'', Op = ''?''\<rparr>],
       QOp = ''|'', Proplist = [''name'']\<rparr>
      (\<lambda>item err n. Suc n) (0 :: nat)
      \<lparr>incoming = [], written = [], wsched = []\<rparr>))) =
   concat (map wire [''/interface/listen'', ''=.proplist=name'', ''?type=ether'', ''''])"
proof -
  have h: "healthy \<lparr>incoming = [], written = [], wsched = []\<rparr>"
    by (simp add: healthy_def)
  show ?thesis
    using KeepAliveCall_words [OF h, of "''/interface/listen''"
      "\<lparr>QPairs = [\<lparr>Key = ''type'', Value = ''ether'', Op = ''?''\<rparr>],
       QOp = ''|'', Proplist = [''name'']\<rparr>" "\<lambda>item err n. Suc n" "0 :: nat", THEN conjunct1]
    by simp
qed

theorem KeepAliveCall_filter_word_differs:
  "written (fst (state_of (KeepAliveCall ''/interface/listen''
      \<lparr>QPairs = [\<lparr>Key = ''type'', Value = ''ether'', Op = ''''\<rparr>], QOp = '''', Proplist = []\<rparr>
      (\<lambda>item err n. Suc n) (0 :: nat)
      \<lparr>incoming = [], written = [], wsched = []\<rparr>))) =
     concat (map wire [''/interface/listen'', ''type=ether'', '''']) \<and>
   written (state_of (Query_call ''/interface/listen''
      \<lparr>QPairs = [\<lparr>Key = ''type'', Value = ''ether'', Op = ''''\<rparr>], QOp = '''', Proplist = []\<rparr>
      \<lparr>incoming = [], written = [], wsched = []\<rparr>)) =
     concat (map wire [''/interface/listen'', ''?type=ether'', '''']) \<and>
   ''?type=ether'' \<notin> set (written (fst (state_of (KeepAliveCall ''/interface/listen''
      \<lparr>QPairs = [\<lparr>Key = ''type'', Value = ''ether'', Op = ''''\<rparr>], QOp = '''', Proplist = []\<rparr>
      (\<lambda>item err n. Suc n) (0 :: nat)
      \<lparr>incoming = [], written = [], wsched = []\<rparr>))))"
  by code_simp

section \<open>The length prefix\<close>

lemma div_marker: "(l + k * m) div m = l div m + k" if "0 < m" for l k m :: nat
  using that by simp

lemma be2: "(l div 256 mod 256) * 256 + l mod 256 = l mod 65536" for l :: nat
  using mod_mult2_eq [of l 256 256] by simp

lemma be3: "(l div 65536 mod 256) * 65536 + ((l div 256 mod 256) * 256 + l mod 256) =
    l mod 16777216" for l :: nat
  using mod_mult2_eq [of l 65536 256] by (simp add: be2)

lemma be4: "(l div 16777216 mod 256) * 16777216 + ((l div 65536 mod 256) * 65536 +
    ((l div 256 mod 256) * 256 + l mod 256)) = l mod 4294967296" for l :: nat
  using mod_mult2_eq [of l 16777216 256] by (simp add: be3)

lemma roundtrip_1:
  assumes "l < 0x80"
  shows "getlen (prefixlen l @ rest) = Some (l, rest)"
  using assms by (simp add: prefixlen_def getlen_def)

lemma roundtrip_2:
  assumes "0x80 \<le> l" "l < 0x4000"
  shows "getlen (prefixlen l @ rest) = Some (l, rest)"
proof -
  have d: "(l + 128 * 256) div 256 = l div 256 + 128" by (rule div_marker) simp
  have s: "l div 256 < 64" using assms by (simp add: div_less_iff_less_mult)
  have b0: "((l + 32768) div 256) mod 256 = 128 + l div 256"
    using d s by simp
  have pf: "prefixlen l @ rest = char_of ((l + 0x8000) div 0x100) # char_of l # rest"
    using assms by (simp add: prefixlen_def)
  show ?thesis
    unfolding pf getlen_def using s by (simp add: b0 Let_def)
qed

lemma roundtrip_3:
  assumes "0x4000 \<le> l" "l < 0x200000"
  shows "getlen (prefixlen l @ rest) = Some (l, rest)"
proof -
  have d: "(l + 192 * 65536) div 65536 = l div 65536 + 192" by (rule div_marker) simp
  have s: "l div 65536 < 32" using assms by (simp add: div_less_iff_less_mult)
  have b0: "((l + 12582912) div 65536) mod 256 = 192 + l div 65536"
    using d s by simp
  have pf: "prefixlen l @ rest =
      char_of ((l + 0xC00000) div 0x10000) # char_of (l div 0x100) # char_of l # rest"
    using assms by (simp add: prefixlen_def)
  have v: "l div 65536 * 65536 + ((l div 256 mod 256) * 256 + l mod 256) = l"
    by (simp add: be2)
  show ?thesis
    unfolding pf getlen_def using s v by (simp add: b0 Let_def)
qed

lemma roundtrip_4:
  assumes "0x200000 \<le> l" "l < 0x10000000"
  shows "getlen (prefixlen l @ rest) = Some (l, rest)"
proof -
  have d: "(l + 224 * 16777216) div 16777216 = l div 16777216 + 224"
    by (rule div_marker) simp
  have s: "l div 16777216 < 16" using assms by (simp add: div_less_iff_less_mult)
  have b0: "((l + 3758096384) div 16777216) mod 256 = 224 + l div 16777216"
    using d s by simp
  have pf: "prefixlen l @ rest =
      char_of ((l + 0xE0000000) div 0x1000000) # char_of (l div 0x10000) #
      char_of (l div 0x100) # char_of l # rest"
    using assms by (simp add: prefixlen_def)
  have v: "l div 16777216 * 16777216 +
      ((l div 65536 mod 256) * 65536 + ((l div 256 mod 256) * 256 + l mod 256)) = l"
    by (simp add: be3)
  show ?thesis
    unfolding pf getlen_def using s v by (simp add: b0 Let_def)
qed

lemma roundtrip_5:
  assumes "0x10000000 \<le> l" "l < 0x100000000"
  shows "getlen (prefixlen l @ rest) = Some (l, rest)"
proof -
  have pf: "prefixlen l @ rest =
      char_of (0xF0 :: nat) # char_of (l div 0x1000000) # char_of (l div 0x10000) #
      char_of (l div 0x100) # char_of l # rest"
    using assms by (simp add: prefixlen_def)
  have m: "l mod 4294967296 = l" using assms by simp
  have s: "l div 16777216 < 256" using assms by (simp add: div_less_iff_less_mult)
  have "(l div 16777216 mod 256) * 16777216 +
      ((l div 65536 mod 256) * 65536 + ((l div 256 mod 256) * 256 + l mod 256)) = l"
    unfolding be4 by (rule m)
  then have v: "l div 16777216 * 16777216 +
      ((l div 65536 mod 256) * 65536 + ((l div 256 mod 256) * 256 + l mod 256)) = l"
    using s by simp
  show ?thesis
    unfolding pf getlen_def using s v by (simp add: Let_def)
qed

lemma prefixlen_length:
  "length (prefixlen l) =
     (if l < 0x80 then 1 else if l < 0x4000 then 2 else if l < 0x200000 then 3
      else if l < 0x10000000 then 4 else 5)"
  by (simp add: prefixlen_def)

text \<open>
  C3: decoding the encoding of a length gives the length back, and leaves
  what follows the prefix in the stream, for every length the format holds,
  that is every length below \<open>2 ^ 32\<close>; the prefix has one to five bytes. The
  encoder and the decoder here are the ones modelled from the specification.
\<close>

theorem length_prefix_roundtrip:
  assumes "l < 2 ^ 32"
  shows "getlen (prefixlen l @ rest) = Some (l, rest) \<and>
         1 \<le> length (prefixlen l) \<and> length (prefixlen l) \<le> 5"
proof -
  consider "l < 0x80" | "0x80 \<le> l" "l < 0x4000" | "0x4000 \<le> l" "l < 0x200000"
    | "0x200000 \<le> l" "l < 0x10000000" | "0x10000000 \<le> l" "l < 0x100000000"
    using assms by fastforce
  then have "getlen (prefixlen l @ rest) = Some (l, rest)"
  proof cases
    case 1
    then show ?thesis by (rule roundtrip_1)
  next
    case 2
    then show ?thesis by (rule roundtrip_2)
  next
    case 3
    then show ?thesis by (rule roundtrip_3)
  next
    case 4
    then show ?thesis by (rule roundtrip_4)
  next
    case 5
    then show ?thesis by (rule roundtrip_5)
  qed
  then show ?thesis by (simp add: prefixlen_length)
qed

theorem length_prefix_roundtrip_witness:
  "map (\<lambda>l. getlen (prefixlen l @ ''ab''))
     [0, 0x7F, 0x80, 0x3FFF, 0x4000, 0x1FFFFF, 0x200000, 0xFFFFFFF, 0x10000000, 0xFFFFFFFF] =
   map (\<lambda>l. Some (l, ''ab''))
     [0, 0x7F, 0x80, 0x3FFF, 0x4000, 0x1FFFFF, 0x200000, 0xFFFFFFF, 0x10000000, 0xFFFFFFFF] \<and>
   map (\<lambda>l. length (prefixlen l))
     [0, 0x7F, 0x80, 0x3FFF, 0x4000, 0x1FFFFF, 0x200000, 0xFFFFFFF, 0x10000000, 0xFFFFFFFF] =
   [1, 1, 2, 2, 3, 3, 4, 4, 5, 5]"
proof -
  have r: "getlen (prefixlen l @ ''ab'') = Some (l, ''ab'')" if "l < 2 ^ 32" for l
    using length_prefix_roundtrip [OF that, of "''ab''"] by blast
  show ?thesis
    by (simp add: r prefixlen_length)
qed

section \<open>The login response\<close>

lemma hexdigit_table:
  "\<forall>n \<in> set [0..<16]. fromHexChar (hexdigit n) = Some n \<and> hexdigit n \<in> set hexdigits"
  by code_simp

lemma hexdigit_decodes:
  assumes "n < 16"
  shows "fromHexChar (hexdigit n) = Some n \<and> hexdigit n \<in> set hexdigits"
proof -
  have "n \<in> set [0..<16]" using assms by simp
  then show ?thesis using hexdigit_table by blast
qed

lemma byte_digits: "(of_char b :: nat) div 16 < 16 \<and> (of_char b :: nat) mod 16 < 16"
  using nat_of_char_less_256 [of b] by (simp add: div_less_iff_less_mult)

text \<open>What \<open>%x\<close> prints is read back by \<open>hex.DecodeString\<close>, and it is lowercase.\<close>

lemma hex_DecodeString_Sprintf_x: "hex_DecodeString (Sprintf_x bs) = Inr bs"
proof (induction bs)
  case Nil
  then show ?case by simp
next
  case (Cons b bs)
  have hi: "fromHexChar (hexdigit (of_char b div 16)) = Some (of_char b div 16)"
    using hexdigit_decodes byte_digits by blast
  have lo: "fromHexChar (hexdigit (of_char b mod 16)) = Some (of_char b mod 16)"
    using hexdigit_decodes byte_digits by blast
  have whole: "char_of ((of_char b :: nat) div 16 * 16 + of_char b mod 16) = b"
    by simp
  show ?case
    using Cons.IH by (simp add: hi lo whole del: div_mult_mod_eq)
qed

lemma Sprintf_x_lowercase: "set (Sprintf_x bs) \<subseteq> set hexdigits"
proof (induction bs)
  case Nil
  then show ?case by simp
next
  case (Cons b bs)
  have "hexdigit (of_char b div 16) \<in> set hexdigits"
    using hexdigit_decodes byte_digits by blast
  moreover have "hexdigit (of_char b mod 16) \<in> set hexdigits"
    using hexdigit_decodes byte_digits by blast
  ultimately show ?case
    using Cons.IH by simp
qed

lemma length_Sprintf_x: "length (Sprintf_x bs) = 2 * length bs"
  by (induction bs) simp_all

lemma login_response_eq:
  "login_response H passwd challenge =
     ''00'' @ Sprintf_x (H (char_of (0 :: nat) # passwd @ challenge))"
  by (simp add: login_response_def md5_New_def hash_Write_def hash_Sum_def)

section \<open>The handshake\<close>

lemma healthy_incoming_update: "healthy c \<Longrightarrow> healthy (c\<lparr>incoming := fs\<rparr>)"
  by (simp add: healthy_def)

lemma receive_challenge:
  assumes "incoming c = map frame_of [''!done'', ''=ret='' @ enc, ''''] @ rest"
  shows "receive c =
    Returned (\<lparr>Pairs = [\<lparr>Key = ''ret'', Value = enc, Op = ''''\<rparr>], SubPairs = []\<rparr>, None)
      (c\<lparr>incoming := rest\<rparr>)"
proof -
  have nd: "\<not> done_flag init_pstate" by (simp add: init_pstate_def)
  have h1: "''!done'' \<notin> set ([] :: string list)" by simp
  have h2: "'''' \<notin> set [''=ret='' @ enc]" by simp
  have kv: "key_val (''=ret='' @ enc) = (''ret'', enc)"
    using key_val_two [of "[]" "''ret''" enc] by simp
  have m: "CHR ''='' \<in> set (''=ret='' @ enc)" by simp
  have st: "receive_flush (foldl receive_word init_pstate ([] @ ''!done'' # [''=ret='' @ enc])) =
    \<lparr>Pairs = [\<lparr>Key = ''ret'', Value = enc, Op = ''''\<rparr>], SubPairs = []\<rparr>"
    using receive_word_eq [OF m] kv
    by (simp add: receive_word_def init_pstate_def emptyReply_def receive_flush_def)
  have "receive_loop init_pstate (incoming c) =
    Finished (\<lparr>Pairs = [\<lparr>Key = ''ret'', Value = enc, Op = ''''\<rparr>], SubPairs = []\<rparr>, None) rest"
    using receive_loop_sentence [OF nd h1 h2, of rest] st assms
    by (simp del: receive_loop.simps)
  then show ?thesis by (simp add: receive_def)
qed

text \<open>
  A run of \<open>Connect\<close> in which the dial succeeds, no write fails and the
  server answers the first \<open>/login\<close> with a challenge that decodes: up to the
  second call of \<open>Call\<close>.
\<close>

lemma Connect_with_challenge:
  assumes "Dial (address c) = Inr cn" and "healthy cn"
    and "incoming cn = map frame_of [''!done'', ''=ret='' @ enc, ''''] @ rest"
    and "hex_DecodeString enc = Inr challenge"
  shows "Connect H Dial usr passwd c =
    (case Call ''/login''
            [NewPair ''name'' usr, NewPair ''response'' (login_response H passwd challenge)]
            ((sent [''/login'', ''''] cn)\<lparr>incoming := rest\<rparr>) of
       Blocked cn2 \<Rightarrow> Blocked (c\<lparr>conn := Some cn2\<rparr>)
     | Returned (res2, err3) cn2 \<Rightarrow>
         if err3 \<noteq> None then Returned err3 (c\<lparr>conn := Some cn2\<rparr>)
         else if length (Pairs res2) > 0
         then Returned (Some (UnexpectedLogin res2)) (c\<lparr>conn := Some cn2\<rparr>)
         else Returned None (c\<lparr>conn := Some cn2\<rparr>))"
proof -
  let ?c1 = "sent [''/login'', ''''] cn"
  have i: "incoming ?c1 = map frame_of [''!done'', ''=ret='' @ enc, ''''] @ rest"
    using assms(3) by (simp add: incoming_sent)
  have call1: "Call ''/login'' [] cn =
    Returned (\<lparr>Pairs = [\<lparr>Key = ''ret'', Value = enc, Op = ''''\<rparr>], SubPairs = []\<rparr>, None)
      (?c1\<lparr>incoming := rest\<rparr>)"
    unfolding Call_healthy [OF assms(2)] using receive_challenge [OF i] by simp
  show ?thesis
    by (simp add: Connect_def assms(1) call1 Reply_GetPairVal_def assms(4) Let_def
        split: res.splits prod.splits)
qed

lemma Connect_keeps_ready: "ready (state_of (Connect H Dial usr passwd c)) = ready c"
  by (simp add: Connect_def Let_def
      split: sum.splits res.splits prod.splits option.splits if_splits)

lemma Call_sends:
  assumes "healthy c"
  shows "written (state_of (Call command params c)) =
         written c @ concat (map wire
           (command # map (\<lambda>v. ''='' @ Key v @ ''='' @ Value v) params @ ['''']))"
  unfolding Call_healthy [OF assms] state_of_reply_wrap written_receive written_sent ..

lemma conn_of_login_wrap:
  "conn (state_of (case r of
       Blocked cn2 \<Rightarrow> Blocked (c\<lparr>conn := Some cn2\<rparr>)
     | Returned (res2, err3) cn2 \<Rightarrow>
         if err3 \<noteq> None then Returned err3 (c\<lparr>conn := Some cn2\<rparr>)
         else if length (Pairs res2) > 0
         then Returned (Some (UnexpectedLogin res2)) (c\<lparr>conn := Some cn2\<rparr>)
         else Returned None (c\<lparr>conn := Some cn2\<rparr>))) = Some (state_of r)"
  by (cases r) (auto split: prod.splits)

lemma Connect_sends:
  assumes "Dial (address c) = Inr cn" and "healthy cn"
    and "incoming cn = map frame_of [''!done'', ''=ret='' @ enc, ''''] @ rest"
    and "hex_DecodeString enc = Inr challenge"
  shows "map_option written (conn (state_of (Connect H Dial usr passwd c))) =
    Some (written cn @ concat (map wire
      [''/login'', '''', ''/login'', ''=name='' @ usr,
       ''=response='' @ login_response H passwd challenge, '''']))"
proof -
  let ?c1 = "(sent [''/login'', ''''] cn)\<lparr>incoming := rest\<rparr>"
  have h: "healthy ?c1"
    by (rule healthy_incoming_update [OF sent_healthy [OF assms(2)]])
  have w: "written ?c1 = written cn @ concat (map wire [''/login'', ''''])"
    by (simp add: written_sent)
  show ?thesis
    unfolding Connect_with_challenge [of Dial c cn enc rest challenge H usr passwd, OF assms]
      conn_of_login_wrap
    by (simp add: Call_sends [OF h] w NewPair_def)
qed

text \<open>
  C7: the response that \<open>Connect\<close> computes is \<open>00\<close> followed by the hex
  encoding, in lowercase and two digits a byte, of the digest of one zero
  byte, the bytes of the password and the bytes of the challenge, in this
  order. The digest function is the library's MD5, any function here; the
  encoding is one that \<open>hex.DecodeString\<close> reads back to the digest. When the
  server answers the first \<open>/login\<close> with a challenge, this response is what
  \<open>Connect\<close> sends in the word \<open>=response=\<close> of the second \<open>/login\<close>.
\<close>

theorem login_response_digest:
  "login_response H passwd challenge =
     ''00'' @ Sprintf_x (H ([char_of (0 :: nat)] @ passwd @ challenge)) \<and>
   hex_DecodeString (Sprintf_x d) = Inr d \<and>
   set (Sprintf_x d) \<subseteq> set ''0123456789abcdef'' \<and>
   length (Sprintf_x d) = 2 * length d \<and>
   (Dial (address c) = Inr cn \<and> healthy cn \<and>
    incoming cn = map frame_of [''!done'', ''=ret='' @ enc, ''''] @ rest \<and>
    hex_DecodeString enc = Inr challenge \<longrightarrow>
    map_option written (conn (state_of (Connect H Dial usr passwd c))) =
      Some (written cn @ concat (map wire
        [''/login'', '''', ''/login'', ''=name='' @ usr,
         ''=response='' @ ''00'' @ Sprintf_x (H ([char_of (0 :: nat)] @ passwd @ challenge)),
         ''''])))"
proof -
  have r: "login_response H passwd challenge =
     ''00'' @ Sprintf_x (H ([char_of (0 :: nat)] @ passwd @ challenge))"
    using login_response_eq [of H passwd challenge] by simp
  have l: "set (Sprintf_x d) \<subseteq> set ''0123456789abcdef''"
    using Sprintf_x_lowercase [of d] unfolding hexdigits_def .
  have s: "Dial (address c) = Inr cn \<and> healthy cn \<and>
    incoming cn = map frame_of [''!done'', ''=ret='' @ enc, ''''] @ rest \<and>
    hex_DecodeString enc = Inr challenge \<longrightarrow>
    map_option written (conn (state_of (Connect H Dial usr passwd c))) =
      Some (written cn @ concat (map wire
        [''/login'', '''', ''/login'', ''=name='' @ usr,
         ''=response='' @ login_response H passwd challenge, '''']))"
    using Connect_sends [of Dial c cn enc rest challenge H usr passwd] by blast
  show ?thesis
    using r l s hex_DecodeString_Sprintf_x [of d] length_Sprintf_x [of d]
    by (simp only:)
qed

theorem login_response_digest_witness:
  "login_response (\<lambda>bs. bs) ''ab'' [CHR 0x0A, CHR 0xFB] = ''00'' @ ''0061620afb'' \<and>
   map_option written (conn (state_of (Connect (\<lambda>bs. bs)
       (\<lambda>a. Inr \<lparr>incoming = map frame_of [''!done'', ''=ret=0aFB'', ''''],
                   written = [], wsched = []\<rparr>)
       ''admin'' ''ab''
       \<lparr>address = ''10.0.0.1:8728'', user = '''', password = '''', debug = False,
         ready = False, conn = None\<rparr>))) =
     Some (concat (map wire [''/login'', '''', ''/login'', ''=name=admin'',
       ''=response=000061620afb'', '''']))"
proof -
  let ?cn = "\<lparr>incoming = map frame_of [''!done'', ''=ret=0aFB'', ''''],
               written = [], wsched = []\<rparr>"
  let ?c = "\<lparr>address = ''10.0.0.1:8728'', user = '''', password = '''', debug = False,
         ready = False, conn = None\<rparr>"
  have x: "Sprintf_x ((\<lambda>bs. bs) ([char_of (0 :: nat)] @ ''ab'' @ [CHR 0x0A, CHR 0xFB])) =
           ''0061620afb''"
    by code_simp
  have dec: "hex_DecodeString ''0aFB'' = Inr [CHR 0x0A, CHR 0xFB]"
    by code_simp
  have hyp: "(\<lambda>a. Inr ?cn) (address ?c) = Inr ?cn \<and> healthy ?cn \<and>
    incoming ?cn = map frame_of [''!done'', ''=ret='' @ ''0aFB'', ''''] @ [] \<and>
    hex_DecodeString ''0aFB'' = Inr [CHR 0x0A, CHR 0xFB]"
    using dec by (simp add: healthy_def)
  have t: "login_response (\<lambda>bs. bs) ''ab'' [CHR 0x0A, CHR 0xFB] =
     ''00'' @ Sprintf_x ((\<lambda>bs. bs) ([char_of (0 :: nat)] @ ''ab'' @ [CHR 0x0A, CHR 0xFB])) \<and>
    map_option written (conn (state_of (Connect (\<lambda>bs. bs) (\<lambda>a. Inr ?cn) ''admin'' ''ab'' ?c))) =
      Some (written ?cn @ concat (map wire
        [''/login'', '''', ''/login'', ''=name='' @ ''admin'',
         ''=response='' @ ''00'' @
           Sprintf_x ((\<lambda>bs. bs) ([char_of (0 :: nat)] @ ''ab'' @ [CHR 0x0A, CHR 0xFB])),
         '''']))"
    using login_response_digest [of "\<lambda>bs. bs" "''ab''" "[CHR 0x0A, CHR 0xFB]" "[]"
        "\<lambda>a. Inr ?cn" ?c ?cn "''0aFB''" "[]" "''admin''"] hyp
    by blast
  show ?thesis
    using t unfolding x by simp
qed

text \<open>
  C8: a client comes out of \<open>New\<close> with \<open>ready\<close> false, and a handshake that
  succeeds is to set the flag, which the comment on the field reads as
  ``login ok''. The code never writes the field: \<open>Connect\<close> leaves \<open>ready\<close> as it
  finds it on every path, and a handshake that the server accepts returns no
  error with \<open>ready\<close> still false.
\<close>

theorem Connect_leaves_ready_false:
  "(case New SplitHostPort addr of Inl e \<Rightarrow> True | Inr c0 \<Rightarrow> \<not> ready c0) \<and>
   ready (state_of (Connect H Dial usr passwd c)) = ready c \<and>
   (\<exists>c'. Connect H
       (\<lambda>a. Inr \<lparr>incoming = map frame_of [''!done'', ''=ret=0aFB'', '''', ''!done'', ''''],
                   written = [], wsched = []\<rparr>)
       ''admin'' ''ab''
       \<lparr>address = ''10.0.0.1:8728'', user = '''', password = '''', debug = False,
         ready = False, conn = None\<rparr> = Returned None c' \<and> \<not> ready c')"
proof -
  let ?cn = "\<lparr>incoming = map frame_of [''!done'', ''=ret=0aFB'', '''', ''!done'', ''''],
               written = [], wsched = []\<rparr>"
  let ?c = "\<lparr>address = ''10.0.0.1:8728'', user = '''', password = '''', debug = False,
         ready = False, conn = None\<rparr>"
  let ?D = "\<lambda>a :: string. (Inr ?cn :: error + Conn)"
  let ?c1 = "(sent [''/login'', ''''] ?cn)\<lparr>incoming := map frame_of [''!done'', '''']\<rparr>"
  have n: "case New SplitHostPort addr of Inl e \<Rightarrow> True | Inr c0 \<Rightarrow> \<not> ready c0"
    by (simp add: New_def split: option.splits)
  have dec: "hex_DecodeString ''0aFB'' = Inr [CHR 0x0A, CHR 0xFB]"
    by code_simp
  have h: "healthy ?cn" by (simp add: healthy_def)
  have h1: "healthy ?c1"
    by (rule healthy_incoming_update [OF sent_healthy [OF h]])
  have i: "incoming ?cn = map frame_of [''!done'', ''=ret='' @ ''0aFB'', ''''] @
             map frame_of [''!done'', '''']"
    by simp
  have d: "?D (address ?c) = Inr ?cn" by simp
  have l: "receive_loop init_pstate (map frame_of [''!done'', '''']) =
           Finished (emptyReply, None) []"
    by code_simp
  have r2: "receive (sent ws ?c1) = Returned (emptyReply, None) ((sent ws ?c1)\<lparr>incoming := []\<rparr>)"
    for ws
    using l by (simp add: receive_def incoming_sent)
  have "Connect H ?D ''admin'' ''ab'' ?c =
        Returned None (?c\<lparr>conn := Some ((sent
          (''/login'' # map (\<lambda>v. ''='' @ Key v @ ''='' @ Value v)
             [NewPair ''name'' ''admin'',
              NewPair ''response'' (login_response H ''ab'' [CHR 0x0A, CHR 0xFB])] @ [''''])
          ?c1)\<lparr>incoming := []\<rparr>)\<rparr>)"
    unfolding Connect_with_challenge [of ?D ?c ?cn "''0aFB''"
        "map frame_of [''!done'', '''']" "[CHR 0x0A, CHR 0xFB]" H, OF d h i dec]
      Call_healthy [OF h1] r2
    by (simp add: emptyReply_def)
  then have e: "\<exists>c'. Connect H ?D ''admin'' ''ab'' ?c = Returned None c' \<and> \<not> ready c'"
    by simp
  show ?thesis
    using n e Connect_keeps_ready [of H Dial usr passwd c] by blast
qed

end
